theory Spec2Isabelle
  imports Complex_Main
begin

section \<open>Choreograph: the Sequence of phrases (Sequence.hpp)\<close>

text \<open>
  A shallow embedding of \<^verbatim>\<open>choreograph::Sequence<T>\<close>. The template parameter
  \<^verbatim>\<open>T\<close> is the type variable \<open>'v\<close>. Times are C++ \<^verbatim>\<open>float\<close>s and are modelled
  as such: addition rounds, and a comparison with NaN is false.
\<close>

subsection \<open>The C++ float\<close>

text \<open>
  A \<^verbatim>\<open>float\<close> is an IEEE 754 binary32 value: NaN, one of the two infinities, or
  a finite value. Every finite value is an integer multiple of the smallest
  subnormal, 2 to the power -149, so a finite value is given by that integer, its
  number of units. It has at most 24 significant bits and its magnitude is below
  2 to the power 128, which is \<open>2 ^ 277\<close> units. The two zeros are one value here,
  and so are all NaNs: the source only adds and compares times, and neither
  operation tells them apart.
\<close>

text \<open>The number of binary digits of a magnitude.\<close>

fun bit_length :: "nat \<Rightarrow> nat" where
  "bit_length n = (if n = 0 then 0 else Suc (bit_length (n div 2)))"

declare bit_length.simps [simp del]

text \<open>
  Rounding a magnitude to 24 significant bits, to nearest, ties to even: the low
  \<open>k\<close> bits are dropped and the rest goes up when they are more than half a unit
  of the last kept place, or exactly half and the kept part is odd.
\<close>

definition round_mag :: "nat \<Rightarrow> nat" where
  "round_mag m =
     (let k = bit_length m - 24; q = m div 2 ^ k; r = m mod 2 ^ k
      in if 2 ^ k < 2 * r \<or> (2 * r = 2 ^ k \<and> odd q) then (q + 1) * 2 ^ k else q * 2 ^ k)"

datatype float_rep = NaN_rep | MInf_rep | PInf_rep | Fin_rep int

text \<open>The float nearest to a number of units; it is an infinity on overflow.\<close>

definition round_units :: "int \<Rightarrow> float_rep" where
  "round_units n =
     (let m = round_mag (nat \<bar>n\<bar>)
      in if 2 ^ 277 \<le> m then (if n < 0 then MInf_rep else PInf_rep)
         else Fin_rep (if n < 0 then - int m else int m))"

text \<open>A number of units is a float when rounding leaves it as it is.\<close>

fun is_float_rep :: "float_rep \<Rightarrow> bool" where
  "is_float_rep (Fin_rep n) = (round_units n = Fin_rep n)"
| "is_float_rep r = True"

typedef float32 = "{r. is_float_rep r}"
  by (rule exI [of _ NaN_rep]) simp

text \<open>
  \<^verbatim>\<open>x + y\<close>: NaN propagates, the sum of the two opposite infinities is NaN, an
  infinity absorbs a finite value, and the exact sum of two finite values is
  rounded.
\<close>

fun add_rep :: "float_rep \<Rightarrow> float_rep \<Rightarrow> float_rep" where
  "add_rep NaN_rep y = NaN_rep"
| "add_rep x NaN_rep = NaN_rep"
| "add_rep PInf_rep MInf_rep = NaN_rep"
| "add_rep MInf_rep PInf_rep = NaN_rep"
| "add_rep PInf_rep y = PInf_rep"
| "add_rep x PInf_rep = PInf_rep"
| "add_rep MInf_rep y = MInf_rep"
| "add_rep x MInf_rep = MInf_rep"
| "add_rep (Fin_rep a) (Fin_rep b) = round_units (a + b)"

text \<open>\<^verbatim>\<open>x < y\<close> and \<^verbatim>\<open>x <= y\<close>: false as soon as one side is NaN.\<close>

fun less_rep :: "float_rep \<Rightarrow> float_rep \<Rightarrow> bool" where
  "less_rep NaN_rep y = False"
| "less_rep x NaN_rep = False"
| "less_rep x MInf_rep = False"
| "less_rep PInf_rep y = False"
| "less_rep MInf_rep y = True"
| "less_rep x PInf_rep = True"
| "less_rep (Fin_rep a) (Fin_rep b) = (a < b)"

fun le_rep :: "float_rep \<Rightarrow> float_rep \<Rightarrow> bool" where
  "le_rep NaN_rep y = False"
| "le_rep x NaN_rep = False"
| "le_rep MInf_rep y = True"
| "le_rep x PInf_rep = True"
| "le_rep x MInf_rep = False"
| "le_rep PInf_rep y = False"
| "le_rep (Fin_rep a) (Fin_rep b) = (a \<le> b)"

definition of_units :: "int \<Rightarrow> float32" where
  "of_units n = Abs_float32 (round_units n)"

text \<open>The conversion of an integer, \<^verbatim>\<open>static_cast<float>( k )\<close>.\<close>

definition f32 :: "int \<Rightarrow> float32" where
  "f32 k = of_units (k * 2 ^ 149)"

definition NaN :: float32 where
  "NaN = Abs_float32 NaN_rep"

definition PInf :: float32 where
  "PInf = Abs_float32 PInf_rep"

definition MInf :: float32 where
  "MInf = Abs_float32 MInf_rep"

definition is_nan :: "float32 \<Rightarrow> bool" where
  "is_nan x = (Rep_float32 x = NaN_rep)"

fun is_finite_rep :: "float_rep \<Rightarrow> bool" where
  "is_finite_rep (Fin_rep n) = True"
| "is_finite_rep r = False"

definition is_finite :: "float32 \<Rightarrow> bool" where
  "is_finite x = is_finite_rep (Rep_float32 x)"

text \<open>The real number a finite float stands for (0 for the others).\<close>

definition valof :: "float32 \<Rightarrow> real" where
  "valof x = (case Rep_float32 x of Fin_rep n \<Rightarrow> of_int n / 2 ^ 149 | _ \<Rightarrow> 0)"

text \<open>
  The notation \<open>0\<close>, \<open>+\<close>, \<open><\<close> and \<open>\<le>\<close> on floats. The comparisons are not an
  order: \<open>x \<le> x\<close> fails for NaN. \<open>x \<ge> y\<close> is \<open>y \<le> x\<close> and \<open>x > y\<close> is \<open>y < x\<close>.
\<close>

instantiation float32 :: "{zero, plus, ord}"
begin

definition zero_float32 :: float32 where
  "zero_float32 = of_units 0"

definition plus_float32 :: "float32 \<Rightarrow> float32 \<Rightarrow> float32" where
  "plus_float32 x y = Abs_float32 (add_rep (Rep_float32 x) (Rep_float32 y))"

definition less_float32 :: "float32 \<Rightarrow> float32 \<Rightarrow> bool" where
  "less_float32 x y = less_rep (Rep_float32 x) (Rep_float32 y)"

definition less_eq_float32 :: "float32 \<Rightarrow> float32 \<Rightarrow> bool" where
  "less_eq_float32 x y = le_rep (Rep_float32 x) (Rep_float32 y)"

instance ..

end

subsection \<open>The collaborators: Source and Phrase\<close>

text \<open>
  Modelled from the spec: \<^verbatim>\<open>Source.h\<close> is not part of the sources at hand. The base
  class \<^verbatim>\<open>Source<T>( startTime, endTime )\<close> keeps the two times of a time-bounded
  motion; \<^verbatim>\<open>getStartTime()\<close> and \<^verbatim>\<open>getEndTime()\<close> read them and
  \<^verbatim>\<open>setEndTime\<close> writes the second one.
\<close>

record source =
  startTime :: float32
  endTime :: float32

definition getStartTime :: "'a source_scheme \<Rightarrow> float32" where
  "getStartTime s = startTime s"

definition getEndTime :: "'a source_scheme \<Rightarrow> float32" where
  "getEndTime s = endTime s"

definition setEndTime :: "float32 \<Rightarrow> 'a source_scheme \<Rightarrow> 'a source_scheme" where
  "setEndTime t s = s\<lparr>endTime := t\<rparr>"

text \<open>
  Modelled from the spec: \<^verbatim>\<open>Phrase.hpp\<close> is not part of the sources at hand. An
  element of the phrase list is a \<^verbatim>\<open>SourceRef<T>\<close>: a source with a start value, an
  end value and a value-at-time function (the virtual \<^verbatim>\<open>getValue\<close>). Phrases are
  immutable once constructed, so a shared handle is modelled by the phrase itself.
\<close>

record 'v phrase = source +
  startValue :: 'v
  endValue :: 'v
  valueAt :: "float32 \<Rightarrow> 'v"

text \<open>
  Modelled from the spec: the interpolation strategy \<^verbatim>\<open>PhraseT\<close> handed to
  \<^verbatim>\<open>then\<close> (with its extra arguments already applied) is opaque. The constructor
  \<^verbatim>\<open>PhraseT<T>( start, end, startValue, endValue, args... )\<close> yields a phrase whose
  four accessors return these bounds; the strategy only decides the value
  function.
\<close>

type_synonym 'v strategy = "float32 \<Rightarrow> float32 \<Rightarrow> 'v \<Rightarrow> 'v \<Rightarrow> float32 \<Rightarrow> 'v"

definition make_phrase :: "'v strategy \<Rightarrow> float32 \<Rightarrow> float32 \<Rightarrow> 'v \<Rightarrow> 'v \<Rightarrow> 'v phrase" where
  "make_phrase PhraseT st en sv ev =
     \<lparr>startTime = st, endTime = en, startValue = sv, endValue = ev,
      valueAt = PhraseT st en sv ev\<rparr>"

subsection \<open>The Sequence\<close>

record 'v sequence = source +
  phrases :: "'v phrase list"
  initial_value :: 'v

text \<open>
  The source reports no error anywhere: it has no \<^verbatim>\<open>throw\<close> and no assertion. What it
  can do instead is apply \<^verbatim>\<open>front()\<close> or \<^verbatim>\<open>back()\<close> to an empty vector, which the
  C++ standard leaves undefined. The outcome of a constructor says which of the
  two happened.
\<close>

datatype 'a outcome = Undefined_behaviour | Returns 'a

text \<open>\<^verbatim>\<open>explicit Sequence( const T &value )\<close>\<close>

definition Sequence_value :: "'v \<Rightarrow> 'v sequence" where
  "Sequence_value v = \<lparr>startTime = 0, endTime = 0, phrases = [], initial_value = v\<rparr>"

text \<open>
  \<^verbatim>\<open>explicit Sequence( const std::vector<SourceRef<T>> &phrases )\<close>: the member
  initialisers read \<^verbatim>\<open>phrases.front()\<close> and \<^verbatim>\<open>phrases.back()\<close> with no check.
\<close>

definition Sequence_phrases :: "'v phrase list \<Rightarrow> 'v sequence outcome" where
  "Sequence_phrases ps =
     (if ps = [] then Undefined_behaviour
      else Returns \<lparr>startTime = getStartTime (hd ps), endTime = getEndTime (last ps),
                    phrases = ps, initial_value = startValue (hd ps)\<rparr>)"

definition getEndValue :: "'v sequence \<Rightarrow> 'v" where
  "getEndValue s = (if phrases s = [] then initial_value s else endValue (last (phrases s)))"

definition getStartValue :: "'v sequence \<Rightarrow> 'v" where
  "getStartValue s = initial_value s"

definition getPhraseCount :: "'v sequence \<Rightarrow> nat" where
  "getPhraseCount s = length (phrases s)"

text \<open>
  \<^verbatim>\<open>then<PhraseT>( value, duration, args... )\<close>: the phrase is built from the
  current end time and end value, pushed back, and the end time is set to the
  end time of the phrase. There is no check of the duration.
\<close>

definition then_seq :: "'v strategy \<Rightarrow> 'v \<Rightarrow> float32 \<Rightarrow> 'v sequence \<Rightarrow> 'v sequence" where
  "then_seq PhraseT v duration s =
     (let phrase = make_phrase PhraseT (getEndTime s) (getEndTime s + duration) (getEndValue s) v
      in setEndTime (getEndTime phrase) (s\<lparr>phrases := phrases s @ [phrase]\<rparr>))"

text \<open>
  \<^verbatim>\<open>set( value )\<close>. The strategy \<^verbatim>\<open>Hold\<close> of \<^verbatim>\<open>Phrase.hpp\<close> is a parameter.
\<close>

definition set_seq :: "'v strategy \<Rightarrow> 'v \<Rightarrow> 'v sequence \<Rightarrow> 'v sequence" where
  "set_seq Hold v s =
     (if phrases s = [] then s\<lparr>initial_value := v\<rparr>
      else then_seq Hold v 0 s)"

text \<open>
  The loop of \<^verbatim>\<open>getValue\<close>: the iterator is the index \<open>i\<close>; the result is the
  position at which the loop returns, or \<open>None\<close> when the iterator reaches the end.
\<close>

function scan :: "nat \<Rightarrow> 'v phrase list \<Rightarrow> float32 \<Rightarrow> nat option" where
  "scan i ps atTime =
     (if i < length ps
      then (if getEndTime (ps ! i) > atTime then Some i else scan (Suc i) ps atTime)
      else None)"
  by pat_completeness auto
termination
  by (relation "measure (\<lambda>(i, ps, atTime). length ps - i)") auto

declare scan.simps [simp del]

definition getValue :: "'v sequence \<Rightarrow> float32 \<Rightarrow> 'v" where
  "getValue s atTime =
     (if atTime < getStartTime s then initial_value s
      else if atTime \<ge> getEndTime s then getEndValue s
      else (case scan 0 (phrases s) atTime of
              Some i \<Rightarrow> valueAt (phrases s ! i) atTime
            | None \<Rightarrow> getEndValue s))"

text \<open>The same control flow, returning the branch taken instead of the value.\<close>

datatype branch = Initial_clamp | End_clamp | Delegated nat | Fallback

definition getValue_branch :: "'v sequence \<Rightarrow> float32 \<Rightarrow> branch" where
  "getValue_branch s atTime =
     (if atTime < getStartTime s then Initial_clamp
      else if atTime \<ge> getEndTime s then End_clamp
      else (case scan 0 (phrases s) atTime of
              Some i \<Rightarrow> Delegated i
            | None \<Rightarrow> Fallback))"

subsection \<open>Chains of calls\<close>

text \<open>
  A chain \<^verbatim>\<open>s.then<P1>( v1, d1 ).then<P2>( v2, d2 )...\<close>: every call returns
  \<^verbatim>\<open>*this\<close>, so the next call works on the sequence the previous one left.
\<close>

fun thens :: "('v strategy \<times> 'v \<times> float32) list \<Rightarrow> 'v sequence \<Rightarrow> 'v sequence" where
  "thens [] s = s"
| "thens ((PhraseT, v, duration) # cs) s = thens cs (then_seq PhraseT v duration s)"

text \<open>A chain that mixes \<^verbatim>\<open>then\<close> and \<^verbatim>\<open>set\<close>.\<close>

datatype 'v call = Then "'v strategy" 'v float32 | Set 'v

fun apply_call :: "'v strategy \<Rightarrow> 'v call \<Rightarrow> 'v sequence \<Rightarrow> 'v sequence" where
  "apply_call Hold (Then PhraseT v duration) s = then_seq PhraseT v duration s"
| "apply_call Hold (Set v) s = set_seq Hold v s"

fun apply_calls :: "'v strategy \<Rightarrow> 'v call list \<Rightarrow> 'v sequence \<Rightarrow> 'v sequence" where
  "apply_calls Hold [] s = s"
| "apply_calls Hold (c # cs) s = apply_calls Hold cs (apply_call Hold c s)"

subsection \<open>Sequence objects in a store\<close>

text \<open>
  \<^verbatim>\<open>copy()\<close> is \<^verbatim>\<open>std::make_shared<SequenceT>( *this )\<close>: it allocates a new
  Sequence object and copy-constructs it, which copies the vector of phrase
  handles, the initial value and the two times. Whether a later call on the copy
  can be seen through the original is a question about objects, so the objects
  live in a store and an address is an index into it. A call through an address
  that holds no object is undefined. \<^verbatim>\<open>then\<close> and \<^verbatim>\<open>set\<close> change the object
  in place and return \<^verbatim>\<open>*this\<close>, the address they were called on; the next call
  of a chain goes through the returned reference.
\<close>

type_synonym 'v store = "'v sequence list"

definition copy :: "nat \<Rightarrow> 'v store \<Rightarrow> (nat \<times> 'v store) outcome" where
  "copy this h =
     (if this < length h then Returns (length h, h @ [h ! this]) else Undefined_behaviour)"

definition call_at ::
  "'v strategy \<Rightarrow> nat \<Rightarrow> 'v call \<Rightarrow> 'v store \<Rightarrow> (nat \<times> 'v store) outcome" where
  "call_at Hold this c h =
     (if this < length h then Returns (this, h[this := apply_call Hold c (h ! this)])
      else Undefined_behaviour)"

fun calls_at ::
  "'v strategy \<Rightarrow> nat \<Rightarrow> 'v call list \<Rightarrow> 'v store \<Rightarrow> (nat \<times> 'v store) outcome" where
  "calls_at Hold this [] h = Returns (this, h)"
| "calls_at Hold this (c # cs) h =
     (case call_at Hold this c h of
        Undefined_behaviour \<Rightarrow> Undefined_behaviour
      | Returns (ref, h') \<Rightarrow> calls_at Hold ref cs h')"

subsection \<open>The structural invariants of the spec\<close>

text \<open>Contiguous: every phrase ends at the time at which the next one starts.\<close>

fun contiguous :: "'v phrase list \<Rightarrow> bool" where
  "contiguous (p # q # ps) = (getEndTime p = getStartTime q \<and> contiguous (q # ps))"
| "contiguous ps = True"

text \<open>Continuous in value: every phrase ends at the value at which the next one starts.\<close>

fun value_continuous :: "'v phrase list \<Rightarrow> bool" where
  "value_continuous (p # q # ps) = (endValue p = startValue q \<and> value_continuous (q # ps))"
| "value_continuous ps = True"

text \<open>Chronological: no phrase ends before it starts.\<close>

definition chronological :: "'v phrase list \<Rightarrow> bool" where
  "chronological ps = list_all (\<lambda>p. getStartTime p \<le> getEndTime p) ps"

definition chronologically_contiguous :: "'v phrase list \<Rightarrow> bool" where
  "chronologically_contiguous ps = (chronological ps \<and> contiguous ps)"

text \<open>
  The cached times: both are 0 without phrases, else the start time of the
  first phrase and the end time of the last one.
\<close>

definition times_consistent :: "'v sequence \<Rightarrow> bool" where
  "times_consistent s =
     (if phrases s = [] then getStartTime s = 0 \<and> getEndTime s = 0
      else getStartTime s = getStartTime (hd (phrases s))
         \<and> getEndTime s = getEndTime (last (phrases s)))"

text \<open>The end time of the sequence is not before the end of any phrase.\<close>

definition ends_bounded :: "'v sequence \<Rightarrow> bool" where
  "ends_bounded s = list_all (\<lambda>p. getEndTime p \<le> getEndTime s) (phrases s)"

text \<open>The half-open interval of a phrase.\<close>

definition covers :: "'v phrase \<Rightarrow> float32 \<Rightarrow> bool" where
  "covers p t = (getStartTime p \<le> t \<and> t < getEndTime p)"

subsection \<open>Auxiliary notions for the proofs\<close>

text \<open>The durations handed to a chain of \<^verbatim>\<open>then\<close> calls.\<close>

definition durations :: "('v strategy \<times> 'v \<times> float32) list \<Rightarrow> float32 list" where
  "durations cs = map (\<lambda>(PhraseT, v, duration). duration) cs"

text \<open>The phrases at positions \<open>i\<close> and \<open>i + 1\<close> meet in time and in value.\<close>

definition adjacent_ok :: "'v phrase list \<Rightarrow> nat \<Rightarrow> bool" where
  "adjacent_ok ps i = (getEndTime (ps ! i) = getStartTime (ps ! Suc i)
                       \<and> endValue (ps ! i) = startValue (ps ! Suc i))"

text \<open>The cached end time is the end time of the last phrase, when there is one.\<close>

definition end_cached :: "'v sequence \<Rightarrow> bool" where
  "end_cached s = (phrases s \<noteq> [] \<longrightarrow> getEndTime s = getEndTime (last (phrases s)))"

text \<open>Every pair whose second phrase sits at position \<open>n\<close> or later meets.\<close>

definition appended_ok :: "nat \<Rightarrow> 'v sequence \<Rightarrow> bool" where
  "appended_ok n s = (end_cached s \<and>
     (\<forall>i. n \<le> Suc i \<and> Suc i < length (phrases s) \<longrightarrow> adjacent_ok (phrases s) i))"

section \<open>Properties\<close>

subsection \<open>Floats: rounding\<close>

lemma bit_length_0 [simp]: "bit_length 0 = 0"
  by (simp add: bit_length.simps)

lemma bit_length_pos: "0 < n \<Longrightarrow> bit_length n = Suc (bit_length (n div 2))"
  by (subst bit_length.simps) simp

lemma less_two_power_bit_length: "n < 2 ^ bit_length n"
proof (induction n rule: bit_length.induct)
  case (1 n)
  show ?case
  proof (cases "n = 0")
    case True
    then show ?thesis by simp
  next
    case False
    then have "n div 2 < 2 ^ bit_length (n div 2)"
      using 1 by simp
    then have "n < 2 * 2 ^ bit_length (n div 2)"
      by linarith
    then show ?thesis
      using False by (simp add: bit_length_pos)
  qed
qed

lemma two_power_bit_length_le: "0 < n \<Longrightarrow> 2 ^ (bit_length n - 1) \<le> n"
proof (induction n rule: bit_length.induct)
  case (1 n)
  show ?case
  proof (cases "n div 2 = 0")
    case True
    then show ?thesis
      using "1.prems" by (simp add: bit_length_pos)
  next
    case False
    then have pos: "0 < n div 2" by simp
    then have ih: "2 ^ (bit_length (n div 2) - 1) \<le> n div 2"
      using 1 by simp
    obtain l where l: "bit_length (n div 2) = Suc l"
      using pos by (auto simp: bit_length_pos)
    have "(2::nat) ^ bit_length (n div 2) = 2 * 2 ^ l"
      by (simp add: l)
    also have "\<dots> \<le> 2 * (n div 2)"
      using ih by (simp add: l)
    also have "\<dots> \<le> n" by simp
    finally show ?thesis
      using "1.prems" by (simp add: bit_length_pos)
  qed
qed

lemma bit_length_le: "n < 2 ^ l \<Longrightarrow> bit_length n \<le> l"
proof (rule ccontr)
  assume n: "n < 2 ^ l" and "\<not> bit_length n \<le> l"
  then have l: "l \<le> bit_length n - 1" by simp
  then have "0 < n"
    using \<open>\<not> bit_length n \<le> l\<close> by (cases "n = 0") simp_all
  then have "2 ^ (bit_length n - 1) \<le> n"
    by (rule two_power_bit_length_le)
  moreover have "(2::nat) ^ l \<le> 2 ^ (bit_length n - 1)"
    using l by (simp add: power_increasing)
  ultimately show False using n by linarith
qed

lemma bit_length_gt: "2 ^ l \<le> n \<Longrightarrow> l < bit_length n"
proof -
  assume "2 ^ l \<le> n"
  then have "(2::nat) ^ l < 2 ^ bit_length n"
    using less_two_power_bit_length [of n] by linarith
  then show ?thesis by simp
qed

lemma bit_length_mono: "m \<le> n \<Longrightarrow> bit_length m \<le> bit_length n"
  using less_two_power_bit_length [of n] by (intro bit_length_le) simp

lemma round_mag_cases:
  fixes m :: nat
  defines "k \<equiv> bit_length m - 24"
  shows "round_mag m = (m div 2 ^ k) * 2 ^ k
     \<or> round_mag m = (m div 2 ^ k + 1) * 2 ^ k \<and> m mod 2 ^ k \<noteq> 0"
proof (cases "m mod 2 ^ k = 0")
  case True
  then show ?thesis
    unfolding round_mag_def Let_def k_def by simp
next
  case False
  then show ?thesis
    unfolding round_mag_def Let_def k_def by simp
qed

lemma round_mag_div_exact:
  assumes "m mod 2 ^ (bit_length m - 24) = 0"
  shows "round_mag m = m"
proof -
  have "m div 2 ^ (bit_length m - 24) * 2 ^ (bit_length m - 24) = m"
    using assms by (simp add: mod_eq_0_iff_dvd)
  then show ?thesis
    using assms unfolding round_mag_def Let_def by simp
qed

lemma round_mag_exact: "2 ^ e dvd m \<Longrightarrow> bit_length m \<le> 24 + e \<Longrightarrow> round_mag m = m"
proof (rule round_mag_div_exact)
  assume d: "2 ^ e dvd m" and "bit_length m \<le> 24 + e"
  then have "bit_length m - 24 \<le> e" by simp
  then have "(2::nat) ^ (bit_length m - 24) dvd 2 ^ e"
    by (simp add: le_imp_power_dvd)
  then have "2 ^ (bit_length m - 24) dvd m"
    using d by (rule dvd_trans)
  then show "m mod 2 ^ (bit_length m - 24) = 0" by simp
qed

lemma round_mag_dvd: "2 ^ (bit_length m - 24) dvd round_mag m"
  using round_mag_cases [of m] by auto

lemma round_mag_fixed_dvd: "round_mag m = m \<Longrightarrow> 2 ^ (bit_length m - 24) dvd m"
  using round_mag_dvd [of m] by simp

lemma round_mag_small: "m < 2 ^ 24 \<Longrightarrow> round_mag m = m"
  using bit_length_le [of m 24] by (intro round_mag_div_exact) simp

lemma div_ge_two_power_23:
  assumes "24 < bit_length m"
  shows "2 ^ 23 \<le> m div 2 ^ (bit_length m - 24)"
proof -
  let ?k = "bit_length m - 24"
  have "0 < m" using assms by (cases "m = 0") simp_all
  then have "2 ^ (bit_length m - 1) \<le> m" by (rule two_power_bit_length_le)
  moreover have "bit_length m - 1 = 23 + ?k" using assms by simp
  ultimately have "2 ^ (23 + ?k) \<le> m" by (simp only:)
  then have "2 ^ 23 * 2 ^ ?k \<le> m" by (simp only: power_add)
  then have "(2 ^ 23 * 2 ^ ?k) div 2 ^ ?k \<le> m div 2 ^ ?k"
    by (rule div_le_mono)
  moreover have "((2::nat) ^ 23 * 2 ^ ?k) div 2 ^ ?k = 2 ^ 23"
    by (rule nonzero_mult_div_cancel_right) simp
  ultimately show ?thesis by (simp only:)
qed

lemma div_less_two_power_24: "m div 2 ^ (bit_length m - 24) < 2 ^ 24"
proof -
  let ?k = "bit_length m - 24"
  have "m < 2 ^ bit_length m" by (rule less_two_power_bit_length)
  also have "(2::nat) ^ bit_length m \<le> 2 ^ (24 + ?k)"
    by (rule power_increasing) simp_all
  finally have "m < 2 ^ 24 * 2 ^ ?k" by (simp only: power_add)
  then show ?thesis by (rule less_mult_imp_div_less)
qed

lemma two_power_pred_bit_length:
  assumes "24 < bit_length y"
  shows "(2::nat) ^ (bit_length y - 1) = 2 ^ 23 * 2 ^ (bit_length y - 24)"
proof -
  have "bit_length y - 1 = 23 + (bit_length y - 24)" using assms by linarith
  then have "(2::nat) ^ (bit_length y - 1) = 2 ^ (23 + (bit_length y - 24))"
    by (rule arg_cong)
  then show ?thesis by (simp only: power_add)
qed

lemma two_power_bit_length:
  assumes "24 \<le> bit_length y"
  shows "(2::nat) ^ bit_length y = 2 ^ 24 * 2 ^ (bit_length y - 24)"
proof -
  have "bit_length y = 24 + (bit_length y - 24)" using assms by linarith
  then have "(2::nat) ^ bit_length y = 2 ^ (24 + (bit_length y - 24))"
    by (rule arg_cong)
  then show ?thesis by (simp only: power_add)
qed

lemma round_mag_floor: "(m div 2 ^ (bit_length m - 24)) * 2 ^ (bit_length m - 24) \<le> round_mag m"
proof -
  have "(m div 2 ^ (bit_length m - 24)) * 2 ^ (bit_length m - 24)
      \<le> (m div 2 ^ (bit_length m - 24) + 1) * 2 ^ (bit_length m - 24)"
    by (rule mult_le_mono1) simp
  then show ?thesis
    using round_mag_cases [of m] by (elim disjE conjE) (simp_all only: order_refl)
qed

lemma round_mag_ceil: "round_mag m \<le> (m div 2 ^ (bit_length m - 24) + 1) * 2 ^ (bit_length m - 24)"
proof -
  have "(m div 2 ^ (bit_length m - 24)) * 2 ^ (bit_length m - 24)
      \<le> (m div 2 ^ (bit_length m - 24) + 1) * 2 ^ (bit_length m - 24)"
    by (rule mult_le_mono1) simp
  then show ?thesis
    using round_mag_cases [of m] by (elim disjE conjE) (simp_all only: order_refl)
qed

lemma round_mag_lower:
  assumes "x \<le> y" and "round_mag x = x"
  shows "x \<le> round_mag y"
proof -
  let ?k = "bit_length y - 24"
  have floor: "(y div 2 ^ ?k) * 2 ^ ?k \<le> round_mag y"
    by (rule round_mag_floor)
  show ?thesis
  proof (cases "bit_length y \<le> 24")
    case True
    then have "?k = 0" by simp
    then have "y mod 2 ^ ?k = 0" by simp
    then have "round_mag y = y" by (rule round_mag_div_exact)
    then show ?thesis using assms(1) by (simp only:)
  next
    case False
    then have big: "24 < bit_length y" by simp
    show ?thesis
    proof (cases "bit_length x = bit_length y")
      case True
      have "2 ^ (bit_length x - 24) dvd x"
        using assms(2) by (rule round_mag_fixed_dvd)
      then have "2 ^ ?k dvd x" by (simp only: True)
      then have "x = (x div 2 ^ ?k) * 2 ^ ?k" by simp
      moreover have "(x div 2 ^ ?k) * 2 ^ ?k \<le> (y div 2 ^ ?k) * 2 ^ ?k"
        by (rule mult_le_mono1) (rule div_le_mono [OF assms(1)])
      ultimately show ?thesis using floor by linarith
    next
      case False
      then have "bit_length x \<le> bit_length y - 1"
        using bit_length_mono [OF assms(1)] by linarith
      then have "(2::nat) ^ bit_length x \<le> 2 ^ (bit_length y - 1)"
        by (rule power_increasing) simp
      moreover have "x < 2 ^ bit_length x" by (rule less_two_power_bit_length)
      ultimately have "x < 2 ^ (bit_length y - 1)" by linarith
      then have "x < 2 ^ 23 * 2 ^ ?k"
        by (simp only: two_power_pred_bit_length [OF big])
      moreover have "2 ^ 23 * 2 ^ ?k \<le> (y div 2 ^ ?k) * 2 ^ ?k"
        by (rule mult_le_mono1) (rule div_ge_two_power_23 [OF big])
      ultimately show ?thesis using floor by linarith
    qed
  qed
qed

lemma round_mag_upper:
  assumes "a \<le> b" and "round_mag b = b"
  shows "round_mag a \<le> b"
proof -
  let ?k = "bit_length a - 24"
  from round_mag_cases [of a] show ?thesis
  proof
    assume "round_mag a = (a div 2 ^ ?k) * 2 ^ ?k"
    moreover have "(a div 2 ^ ?k) * 2 ^ ?k \<le> a" by simp
    ultimately show ?thesis using assms(1) by linarith
  next
    assume up: "round_mag a = (a div 2 ^ ?k + 1) * 2 ^ ?k \<and> a mod 2 ^ ?k \<noteq> 0"
    have kpos: "24 < bit_length a"
    proof (rule ccontr)
      assume "\<not> 24 < bit_length a"
      then have "?k = 0" by simp
      then have "a mod 2 ^ ?k = 0" by simp
      then show False using up by simp
    qed
    show ?thesis
    proof (cases "bit_length b = bit_length a")
      case True
      have "2 ^ (bit_length b - 24) dvd b"
        using assms(2) by (rule round_mag_fixed_dvd)
      then have "2 ^ ?k dvd b" by (simp only: True)
      then have c: "b = (b div 2 ^ ?k) * 2 ^ ?k" by simp
      have "(a div 2 ^ ?k) * 2 ^ ?k + a mod 2 ^ ?k = a"
        by (rule div_mult_mod_eq)
      then have "(a div 2 ^ ?k) * 2 ^ ?k < a"
        using up by linarith
      then have "(a div 2 ^ ?k) * 2 ^ ?k < (b div 2 ^ ?k) * 2 ^ ?k"
        using assms(1) c by linarith
      then have "a div 2 ^ ?k < b div 2 ^ ?k"
        by (simp only: mult_less_cancel2)
      then have "a div 2 ^ ?k + 1 \<le> b div 2 ^ ?k" by simp
      then have "(a div 2 ^ ?k + 1) * 2 ^ ?k \<le> (b div 2 ^ ?k) * 2 ^ ?k"
        by (rule mult_le_mono1)
      then show ?thesis using up c by linarith
    next
      case False
      then have "bit_length a \<le> bit_length b - 1"
        using bit_length_mono [OF assms(1)] by linarith
      then have le: "(2::nat) ^ bit_length a \<le> 2 ^ (bit_length b - 1)"
        by (rule power_increasing) simp
      have "0 < b" using False bit_length_mono [OF assms(1)] by (cases "b = 0") simp_all
      then have "2 ^ (bit_length b - 1) \<le> b" by (rule two_power_bit_length_le)
      then have b: "2 ^ bit_length a \<le> b" using le by linarith
      have "a div 2 ^ ?k + 1 \<le> 2 ^ 24"
        using div_less_two_power_24 [of a] by linarith
      then have "(a div 2 ^ ?k + 1) * 2 ^ ?k \<le> 2 ^ 24 * 2 ^ ?k"
        by (rule mult_le_mono1)
      then have "(a div 2 ^ ?k + 1) * 2 ^ ?k \<le> 2 ^ bit_length a"
        using kpos by (simp only: two_power_bit_length [of a] less_imp_le)
      then show ?thesis using up b by linarith
    qed
  qed
qed

lemma round_mag_idem: "round_mag (round_mag m) = round_mag m"
proof (cases "bit_length m \<le> 24")
  case True
  then have "bit_length m - 24 = 0" by simp
  then have "m mod 2 ^ (bit_length m - 24) = 0" by simp
  then have "round_mag m = m" by (rule round_mag_div_exact)
  then show ?thesis by (simp only:)
next
  case False
  let ?k = "bit_length m - 24"
  let ?q = "m div 2 ^ ?k"
  have big: "24 \<le> bit_length m" using False by simp
  have dvd: "2 ^ ?k dvd round_mag m" by (rule round_mag_dvd)
  have "?q + 1 \<le> 2 ^ 24"
    using div_less_two_power_24 [of m] by linarith
  then have "(?q + 1) * 2 ^ ?k \<le> 2 ^ 24 * 2 ^ ?k"
    by (rule mult_le_mono1)
  then have "(?q + 1) * 2 ^ ?k \<le> 2 ^ bit_length m"
    by (simp only: two_power_bit_length [OF big])
  then have le: "round_mag m \<le> 2 ^ bit_length m"
    using round_mag_ceil [of m] by linarith
  show ?thesis
  proof (cases "round_mag m = 2 ^ bit_length m")
    case True
    have "(2::nat) ^ bit_length m < 2 ^ Suc (bit_length m)"
      by (rule power_strict_increasing) simp_all
    then have "bit_length ((2::nat) ^ bit_length m) \<le> Suc (bit_length m)"
      by (rule bit_length_le)
    then have "bit_length ((2::nat) ^ bit_length m) \<le> 24 + Suc ?k"
      using big by linarith
    moreover have "(2::nat) ^ Suc ?k dvd 2 ^ bit_length m"
      by (rule le_imp_power_dvd) (use big in linarith)
    ultimately have "round_mag (2 ^ bit_length m) = 2 ^ bit_length m"
      by (rule round_mag_exact [rotated])
    then show ?thesis by (simp only: True)
  next
    case False
    then have "round_mag m < 2 ^ bit_length m" using le by linarith
    then have "bit_length (round_mag m) \<le> bit_length m" by (rule bit_length_le)
    then have "bit_length (round_mag m) \<le> 24 + ?k" using big by linarith
    with dvd show ?thesis by (rule round_mag_exact)
  qed
qed

lemma round_mag_0 [simp]: "round_mag 0 = 0"
  by (simp add: round_mag_def)

lemma round_units_Fin:
  assumes "round_units n = Fin_rep v"
  shows "nat \<bar>v\<bar> = round_mag (nat \<bar>n\<bar>) \<and> round_mag (nat \<bar>n\<bar>) < 2 ^ 277
         \<and> v = (if n < 0 then - int (round_mag (nat \<bar>n\<bar>)) else int (round_mag (nat \<bar>n\<bar>)))"
  using assms unfolding round_units_def Let_def by (auto split: if_splits)

lemma round_units_fixed:
  assumes "round_mag (nat \<bar>a\<bar>) = nat \<bar>a\<bar>" and "nat \<bar>a\<bar> < 2 ^ 277"
  shows "round_units a = Fin_rep a"
  using assms unfolding round_units_def Let_def by auto

lemma is_float_rep_round_units: "is_float_rep (round_units n)"
proof (cases "round_units n")
  case (Fin_rep v)
  from round_units_Fin [OF Fin_rep]
  have v: "nat \<bar>v\<bar> = round_mag (nat \<bar>n\<bar>)" and small: "round_mag (nat \<bar>n\<bar>) < 2 ^ 277"
    by simp_all
  have "round_mag (nat \<bar>v\<bar>) = nat \<bar>v\<bar>"
    by (simp only: v round_mag_idem)
  moreover have "nat \<bar>v\<bar> < 2 ^ 277"
    using small by (simp only: v)
  ultimately have "round_units v = Fin_rep v"
    by (rule round_units_fixed)
  then show ?thesis by (simp add: Fin_rep)
qed simp_all

lemma is_float_rep_Fin:
  "is_float_rep (Fin_rep a) = (round_mag (nat \<bar>a\<bar>) = nat \<bar>a\<bar> \<and> nat \<bar>a\<bar> < 2 ^ 277)"
proof
  assume "is_float_rep (Fin_rep a)"
  then have "round_units a = Fin_rep a" by simp
  from round_units_Fin [OF this]
  show "round_mag (nat \<bar>a\<bar>) = nat \<bar>a\<bar> \<and> nat \<bar>a\<bar> < 2 ^ 277"
    by (simp only:) simp
next
  assume "round_mag (nat \<bar>a\<bar>) = nat \<bar>a\<bar> \<and> nat \<bar>a\<bar> < 2 ^ 277"
  then show "is_float_rep (Fin_rep a)"
    by (simp add: round_units_fixed)
qed

lemma is_float_rep_add: "is_float_rep x \<Longrightarrow> is_float_rep y \<Longrightarrow> is_float_rep (add_rep x y)"
  by (cases x; cases y) (simp_all add: is_float_rep_round_units del: is_float_rep.simps(1))

lemma is_float_rep_Rep [simp]: "is_float_rep (Rep_float32 x)"
  using Rep_float32 [of x] by simp

lemma Rep_of_units: "Rep_float32 (of_units n) = round_units n"
  by (simp add: of_units_def Abs_float32_inverse is_float_rep_round_units)

lemma Rep_plus: "Rep_float32 (x + y) = add_rep (Rep_float32 x) (Rep_float32 y)"
  by (simp add: plus_float32_def Abs_float32_inverse is_float_rep_add)

lemma Rep_zero: "Rep_float32 0 = Fin_rep 0"
  by (simp add: zero_float32_def Rep_of_units round_units_def)

lemma Rep_NaN: "Rep_float32 NaN = NaN_rep"
  by (simp add: NaN_def Abs_float32_inverse)

lemma Rep_PInf: "Rep_float32 PInf = PInf_rep"
  by (simp add: PInf_def Abs_float32_inverse)

lemma Rep_MInf: "Rep_float32 MInf = MInf_rep"
  by (simp add: MInf_def Abs_float32_inverse)

lemma float32_eqI: "Rep_float32 x = Rep_float32 y \<Longrightarrow> x = y"
  by (simp add: Rep_float32_inject)

subsection \<open>Floats: the comparisons\<close>

lemma le_rep_trans: "le_rep x y \<Longrightarrow> le_rep y z \<Longrightarrow> le_rep x z"
  by (cases x; cases y; cases z) simp_all

lemma less_le_rep_trans: "less_rep x y \<Longrightarrow> le_rep y z \<Longrightarrow> less_rep x z"
  by (cases x; cases y; cases z) simp_all

lemma le_less_rep_trans: "le_rep x y \<Longrightarrow> less_rep y z \<Longrightarrow> less_rep x z"
  by (cases x; cases y; cases z) simp_all

lemma le_rep_not_less: "le_rep x y \<Longrightarrow> \<not> less_rep y x"
  by (cases x; cases y) simp_all

lemma not_less_rep_le: "x \<noteq> NaN_rep \<Longrightarrow> y \<noteq> NaN_rep \<Longrightarrow> \<not> less_rep x y \<Longrightarrow> le_rep y x"
  by (cases x; cases y) simp_all

lemma le_rep_not_nan: "le_rep x y \<Longrightarrow> x \<noteq> NaN_rep \<and> y \<noteq> NaN_rep"
  by (cases x; cases y) simp_all

lemma less_rep_not_nan: "less_rep x y \<Longrightarrow> x \<noteq> NaN_rep \<and> y \<noteq> NaN_rep"
  by (cases x; cases y) simp_all

lemma le_rep_refl: "x \<noteq> NaN_rep \<Longrightarrow> le_rep x x"
  by (cases x) simp_all

lemma less_rep_le: "less_rep x y \<Longrightarrow> le_rep x y"
  by (cases x; cases y) simp_all

lemma float_le_trans: "x \<le> y \<Longrightarrow> y \<le> z \<Longrightarrow> x \<le> (z::float32)"
  unfolding less_eq_float32_def by (rule le_rep_trans)

lemma float_less_le_trans: "x < y \<Longrightarrow> y \<le> z \<Longrightarrow> x < (z::float32)"
  unfolding less_eq_float32_def less_float32_def by (rule less_le_rep_trans)

lemma float_le_less_trans: "x \<le> y \<Longrightarrow> y < z \<Longrightarrow> x < (z::float32)"
  unfolding less_eq_float32_def less_float32_def by (rule le_less_rep_trans)

lemma float_le_not_less: "x \<le> y \<Longrightarrow> \<not> y < (x::float32)"
  unfolding less_eq_float32_def less_float32_def by (rule le_rep_not_less)

lemma float_less_not_le: "x < y \<Longrightarrow> \<not> y \<le> (x::float32)"
  using float_le_not_less by blast

lemma float_not_less_le: "\<not> is_nan x \<Longrightarrow> \<not> is_nan y \<Longrightarrow> \<not> x < y \<Longrightarrow> y \<le> x"
  unfolding less_eq_float32_def less_float32_def is_nan_def by (rule not_less_rep_le)

lemma float_le_not_nan: "x \<le> y \<Longrightarrow> \<not> is_nan x \<and> \<not> is_nan y"
  unfolding less_eq_float32_def is_nan_def by (rule le_rep_not_nan)

lemma float_less_not_nan: "x < y \<Longrightarrow> \<not> is_nan x \<and> \<not> is_nan y"
  unfolding less_float32_def is_nan_def by (rule less_rep_not_nan)

lemma float_le_refl: "\<not> is_nan x \<Longrightarrow> x \<le> x"
  unfolding less_eq_float32_def is_nan_def by (rule le_rep_refl)

lemma float_less_imp_le: "x < y \<Longrightarrow> x \<le> (y::float32)"
  unfolding less_eq_float32_def less_float32_def by (rule less_rep_le)

lemma NaN_rep_compare [simp]: "\<not> less_rep x NaN_rep" "\<not> le_rep x NaN_rep"
  by (cases x; simp)+

lemma NaN_compare [simp]:
  "\<not> NaN < x" "\<not> x < NaN" "\<not> NaN \<le> x" "\<not> x \<le> NaN" "is_nan NaN"
  by (simp_all add: less_float32_def less_eq_float32_def is_nan_def Rep_NaN)

subsection \<open>Floats: addition\<close>

lemma add_rep_zero: "is_float_rep r \<Longrightarrow> add_rep r (Fin_rep 0) = r"
  by (cases r) simp_all

lemma float_add_zero: "x + 0 = (x::float32)"
  by (rule float32_eqI) (simp add: Rep_plus Rep_zero add_rep_zero)

lemma round_units_lower:
  assumes valid: "is_float_rep (Fin_rep a)" and le: "a \<le> n"
  shows "le_rep (Fin_rep a) (round_units n)"
proof -
  have fixed: "round_mag (nat \<bar>a\<bar>) = nat \<bar>a\<bar>" and small: "nat \<bar>a\<bar> < 2 ^ 277"
    using valid by (simp_all only: is_float_rep_Fin)
  show ?thesis
  proof (cases "n < 0")
    case False
    show ?thesis
    proof (cases "a < 0")
      case True
      then show ?thesis
        using False unfolding round_units_def Let_def by simp
    next
      case a: False
      have "nat \<bar>a\<bar> \<le> nat \<bar>n\<bar>" using le a by simp
      then have "nat \<bar>a\<bar> \<le> round_mag (nat \<bar>n\<bar>)"
        using fixed by (rule round_mag_lower)
      then have "a \<le> int (round_mag (nat \<bar>n\<bar>))" using a by linarith
      then show ?thesis
        using False unfolding round_units_def Let_def by simp
    qed
  next
    case True
    then have a: "a < 0" using le by simp
    have "nat \<bar>n\<bar> \<le> nat \<bar>a\<bar>" using le True by simp
    then have up: "round_mag (nat \<bar>n\<bar>) \<le> nat \<bar>a\<bar>"
      using fixed by (rule round_mag_upper)
    then have "\<not> 2 ^ 277 \<le> round_mag (nat \<bar>n\<bar>)" using small by linarith
    moreover have "a \<le> - int (round_mag (nat \<bar>n\<bar>))" using up a by linarith
    ultimately show ?thesis
      using True unfolding round_units_def Let_def by simp
  qed
qed

lemma round_units_upper:
  assumes valid: "is_float_rep (Fin_rep b)" and le: "n \<le> b"
  shows "le_rep (round_units n) (Fin_rep b)"
proof -
  have fixed: "round_mag (nat \<bar>b\<bar>) = nat \<bar>b\<bar>" and small: "nat \<bar>b\<bar> < 2 ^ 277"
    using valid by (simp_all only: is_float_rep_Fin)
  show ?thesis
  proof (cases "n < 0")
    case True
    show ?thesis
    proof (cases "b < 0")
      case False
      then show ?thesis
        using True unfolding round_units_def Let_def by simp
    next
      case b: True
      have "nat \<bar>b\<bar> \<le> nat \<bar>n\<bar>" using le b by simp
      then have "nat \<bar>b\<bar> \<le> round_mag (nat \<bar>n\<bar>)"
        using fixed by (rule round_mag_lower)
      then have "- int (round_mag (nat \<bar>n\<bar>)) \<le> b" using b by linarith
      then show ?thesis
        using True unfolding round_units_def Let_def by simp
    qed
  next
    case False
    then have b: "0 \<le> b" using le by simp
    have "nat \<bar>n\<bar> \<le> nat \<bar>b\<bar>" using le False by simp
    then have up: "round_mag (nat \<bar>n\<bar>) \<le> nat \<bar>b\<bar>"
      using fixed by (rule round_mag_upper)
    then have "\<not> 2 ^ 277 \<le> round_mag (nat \<bar>n\<bar>)" using small by linarith
    moreover have "int (round_mag (nat \<bar>n\<bar>)) \<le> b" using up b by linarith
    ultimately show ?thesis
      using False unfolding round_units_def Let_def by simp
  qed
qed

lemma add_rep_nonneg:
  assumes "is_float_rep x" and "le_rep (Fin_rep 0) x" and "le_rep (Fin_rep 0) d"
  shows "le_rep x (add_rep x d)"
proof (cases x)
  case (Fin_rep a)
  show ?thesis
  proof (cases d)
    case d: (Fin_rep b)
    then have "a \<le> a + b" using assms(3) by simp
    then show ?thesis
      using assms(1) unfolding Fin_rep d add_rep.simps by (rule round_units_lower [rotated])
  qed (use assms Fin_rep in simp_all)
qed (use assms in \<open>cases d; simp_all\<close>)+

lemma add_rep_negative:
  assumes "is_float_rep (Fin_rep a)" and "less_rep d (Fin_rep 0)"
  shows "le_rep (add_rep (Fin_rep a) d) (Fin_rep a)"
proof (cases d)
  case (Fin_rep b)
  then have "a + b \<le> a" using assms(2) by simp
  then show ?thesis
    using assms(1) unfolding Fin_rep add_rep.simps by (rule round_units_upper [rotated])
qed (use assms in simp_all)

lemma float_add_nonneg: "0 \<le> x \<Longrightarrow> 0 \<le> d \<Longrightarrow> x \<le> x + (d::float32)"
  unfolding less_eq_float32_def Rep_plus Rep_zero
  by (rule add_rep_nonneg) simp_all

lemma float_add_negative: "is_finite x \<Longrightarrow> d < 0 \<Longrightarrow> x + d \<le> (x::float32)"
proof -
  assume fin: "is_finite x" and neg: "d < 0"
  then obtain a where a: "Rep_float32 x = Fin_rep a"
    by (cases "Rep_float32 x") (simp_all add: is_finite_def)
  have "is_float_rep (Fin_rep a)"
    using is_float_rep_Rep [of x] by (simp only: a)
  then have "le_rep (add_rep (Fin_rep a) (Rep_float32 d)) (Fin_rep a)"
    using neg unfolding less_float32_def Rep_zero by (rule add_rep_negative)
  then show ?thesis
    by (simp add: less_eq_float32_def Rep_plus a)
qed

lemma float_le_antisym: "x \<le> y \<Longrightarrow> y \<le> x \<Longrightarrow> x = (y::float32)"
proof (rule float32_eqI)
  assume "x \<le> y" and "y \<le> x"
  then have "le_rep (Rep_float32 x) (Rep_float32 y)" and "le_rep (Rep_float32 y) (Rep_float32 x)"
    by (simp_all add: less_eq_float32_def)
  then show "Rep_float32 x = Rep_float32 y"
    by (cases "Rep_float32 x"; cases "Rep_float32 y") simp_all
qed

lemma float_zero_le_zero: "(0::float32) \<le> 0"
  by (simp add: less_eq_float32_def Rep_zero)

subsection \<open>Floats: evaluation\<close>

lemmas float_eval = f32_def of_units_def plus_float32_def less_float32_def less_eq_float32_def
  zero_float32_def NaN_def PInf_def MInf_def is_nan_def is_finite_def valof_def
  Abs_float32_inverse Abs_float32_inject
  round_units_def round_mag_def bit_length.simps Let_def

text \<open>Integers below \<open>2 ^ 24\<close> in magnitude are floats, and are added and compared as integers.\<close>

lemma Rep_f32_small:
  assumes "\<bar>k\<bar> < 2 ^ 24"
  shows "Rep_float32 (f32 k) = Fin_rep (k * 2 ^ 149)"
proof -
  let ?m = "nat \<bar>k * 2 ^ 149\<bar>"
  have m: "?m = nat \<bar>k\<bar> * 2 ^ 149"
    by (simp add: abs_mult nat_mult_distrib)
  have "nat \<bar>k\<bar> < 2 ^ 24" using assms by (simp add: nat_less_iff)
  then have "nat \<bar>k\<bar> * 2 ^ 149 < 2 ^ 24 * 2 ^ 149"
    by (simp only: mult_less_cancel2) simp
  then have lt: "?m < 2 ^ (24 + 149)"
    by (simp only: m power_add)
  then have "bit_length ?m \<le> 24 + 149" by (rule bit_length_le)
  moreover have "2 ^ 149 dvd ?m" by (simp only: m dvd_triv_right)
  ultimately have "round_mag ?m = ?m" by (rule round_mag_exact [rotated])
  moreover have "(2::nat) ^ (24 + 149) < 2 ^ 277"
    by (rule power_strict_increasing) simp_all
  then have "?m < 2 ^ 277" using lt by linarith
  ultimately have "round_units (k * 2 ^ 149) = Fin_rep (k * 2 ^ 149)"
    by (rule round_units_fixed)
  then show ?thesis by (simp only: f32_def Rep_of_units)
qed

lemma f32_less_small:
  "\<bar>a\<bar> < 2 ^ 24 \<Longrightarrow> \<bar>b\<bar> < 2 ^ 24 \<Longrightarrow> (f32 a < f32 b) = (a < b)"
  by (simp add: less_float32_def Rep_f32_small)

lemma f32_le_small:
  "\<bar>a\<bar> < 2 ^ 24 \<Longrightarrow> \<bar>b\<bar> < 2 ^ 24 \<Longrightarrow> (f32 a \<le> f32 b) = (a \<le> b)"
  by (simp add: less_eq_float32_def Rep_f32_small)

lemma f32_eq_small:
  "\<bar>a\<bar> < 2 ^ 24 \<Longrightarrow> \<bar>b\<bar> < 2 ^ 24 \<Longrightarrow> (f32 a = f32 b) = (a = b)"
  by (simp add: Rep_float32_inject [symmetric] Rep_f32_small)

lemma f32_add_small:
  assumes "\<bar>a\<bar> < 2 ^ 24" and "\<bar>b\<bar> < 2 ^ 24" and "\<bar>a + b\<bar> < 2 ^ 24"
  shows "f32 a + f32 b = f32 (a + b)"
proof (rule float32_eqI)
  have "a * 2 ^ 149 + b * 2 ^ 149 = (a + b) * 2 ^ 149"
    by (simp only: distrib_right)
  then have "round_units (a * 2 ^ 149 + b * 2 ^ 149) = Rep_float32 (f32 (a + b))"
    by (simp only: f32_def Rep_of_units)
  then show "Rep_float32 (f32 a + f32 b) = Rep_float32 (f32 (a + b))"
    by (simp only: Rep_plus Rep_f32_small [OF assms(1)] Rep_f32_small [OF assms(2)] add_rep.simps)
qed

lemma zero_f32: "0 = f32 0"
  by (simp add: zero_float32_def f32_def)

lemma f32_not_nan: "\<bar>a\<bar> < 2 ^ 24 \<Longrightarrow> \<not> is_nan (f32 a)"
  by (simp add: is_nan_def Rep_f32_small)

lemmas f32_small = zero_f32 f32_less_small f32_le_small f32_eq_small f32_add_small

subsection \<open>Unfolding the accessors\<close>

lemmas accessors = getStartTime_def getEndTime_def setEndTime_def getEndValue_def
  getStartValue_def getPhraseCount_def make_phrase_def

lemmas evaluation = Sequence_value_def then_seq_def set_seq_def Let_def
  chronologically_contiguous_def chronological_def times_consistent_def ends_bounded_def
  covers_def getValue_def getValue_branch_def scan.simps

subsection \<open>One call of then\<close>

lemma phrases_then:
  "phrases (then_seq PhraseT v d s) =
     phrases s @ [make_phrase PhraseT (getEndTime s) (getEndTime s + d) (getEndValue s) v]"
  by (simp add: then_seq_def setEndTime_def Let_def)

lemma getEndTime_then: "getEndTime (then_seq PhraseT v d s) = getEndTime s + d"
  by (simp add: then_seq_def accessors Let_def)

lemma getStartTime_then: "getStartTime (then_seq PhraseT v d s) = getStartTime s"
  by (simp add: then_seq_def accessors Let_def)

subsection \<open>set\<close>

text \<open>
  Claim C5. \<^verbatim>\<open>set( value )\<close> goes by case on the phrase list. Without phrases it
  overwrites the initial value in place: no phrase is created, the end time stays,
  and afterwards the start value and the end value are both \<open>value\<close> and the phrase
  count is 0. With at least one phrase it appends one phrase of the strategy
  \<^verbatim>\<open>Hold\<close> that starts and ends at the current end time, starts at the current end
  value and ends at \<open>value\<close>: the phrase count grows by one, the end value is
  \<open>value\<close> and the end time is unchanged. In both cases the call changes the
  object it was made on, in place, and returns a reference to that same object.
\<close>

theorem set_by_cases:
  "(phrases s = [] \<longrightarrow>
      set_seq Hold v s = s\<lparr>initial_value := v\<rparr>
    \<and> phrases (set_seq Hold v s) = []
    \<and> getPhraseCount (set_seq Hold v s) = 0
    \<and> getEndTime (set_seq Hold v s) = getEndTime s
    \<and> getStartValue (set_seq Hold v s) = v
    \<and> getEndValue (set_seq Hold v s) = v)
 \<and> (phrases s \<noteq> [] \<longrightarrow>
      phrases (set_seq Hold v s) =
        phrases s @ [make_phrase Hold (getEndTime s) (getEndTime s) (getEndValue s) v]
    \<and> getPhraseCount (set_seq Hold v s) = Suc (getPhraseCount s)
    \<and> getEndValue (set_seq Hold v s) = v
    \<and> getEndTime (set_seq Hold v s) = getEndTime s
    \<and> getStartTime (set_seq Hold v s) = getStartTime s
    \<and> getStartValue (set_seq Hold v s) = getStartValue s)
 \<and> (this < length h \<longrightarrow>
      call_at Hold this (Set v) h = Returns (this, h[this := set_seq Hold v (h ! this)]))"
  by (simp add: set_seq_def then_seq_def call_at_def accessors Let_def float_add_zero)

text \<open>
  Both cases at concrete sequences: \<^verbatim>\<open>Sequence<int> s( 5 ); s.set( 7 );\<close> and
  \<^verbatim>\<open>Sequence<int> s( 5 ); s.then<Hold>( 1, 2.0f ).set( 7 );\<close>.
\<close>

theorem set_by_cases_witness:
  "phrases (Sequence_value (5::int)) = []
   \<and> getPhraseCount (set_seq (\<lambda>st en sv ev t. ev) 7 (Sequence_value (5::int))) = 0
   \<and> getEndValue (set_seq (\<lambda>st en sv ev t. ev) 7 (Sequence_value (5::int))) = 7
   \<and> phrases (then_seq (\<lambda>st en sv ev t. ev) 1 (f32 2) (Sequence_value (5::int))) \<noteq> []
   \<and> getPhraseCount (set_seq (\<lambda>st en sv ev t. ev) 7
        (then_seq (\<lambda>st en sv ev t. ev) 1 (f32 2) (Sequence_value (5::int)))) = 2
   \<and> getEndTime (set_seq (\<lambda>st en sv ev t. ev) 7
        (then_seq (\<lambda>st en sv ev t. ev) 1 (f32 2) (Sequence_value (5::int)))) = f32 2
   \<and> (0::nat) < length [Sequence_value (5::int)]
   \<and> call_at (\<lambda>st en sv ev t. ev) 0 (Set 7) [Sequence_value (5::int)]
       = Returns (0, [Sequence_value 7])"
  using set_by_cases [of "Sequence_value (5::int)" "(\<lambda>st en sv ev t. ev)" 7
      0 "[Sequence_value (5::int)]"]
    set_by_cases [of "then_seq (\<lambda>st en sv ev t. ev) 1 (f32 2) (Sequence_value (5::int))"
      "(\<lambda>st en sv ev t. ev)" 7 0 "[Sequence_value (5::int)]"]
  by (simp add: Sequence_value_def then_seq_def set_seq_def accessors Let_def f32_small)

subsection \<open>then with a negative duration\<close>

text \<open>
  Against claim C6 as stated: \<^verbatim>\<open>Sequence<int> s( 0 ); s.then<Hold>( 1, -1.0f );\<close> is
  not rejected. The sequence has one phrase afterwards, and that phrase ends
  before it starts.
\<close>

theorem then_negative_duration_counterexample:
  "getPhraseCount (then_seq (\<lambda>st en sv ev t. ev) (1::int) (f32 (-1)) (Sequence_value 0)) = 1
   \<and> getEndTime (last (phrases (then_seq (\<lambda>st en sv ev t. ev) (1::int) (f32 (-1)) (Sequence_value 0))))
     < getStartTime (last (phrases (then_seq (\<lambda>st en sv ev t. ev) (1::int) (f32 (-1)) (Sequence_value 0))))"
  by (simp add: Sequence_value_def then_seq_def accessors Let_def f32_small)

text \<open>
  Claim C6, amended. \<^verbatim>\<open>then\<close> has no error path. For every sequence and every
  duration below zero the call appends the phrase from the current end time to
  the float sum of the current end time and the duration, so the phrase count
  grows by one, and it sets the end time of the sequence to that sum. When the
  current end time is finite, the new phrase does not end after it starts and
  the end time of the sequence does not grow. (The sum is below the current end
  time unless the addition rounds back to it.)
\<close>

theorem then_negative_duration:
  "duration < 0 \<Longrightarrow>
     phrases (then_seq PhraseT v duration s) =
       phrases s @ [make_phrase PhraseT (getEndTime s) (getEndTime s + duration) (getEndValue s) v]
   \<and> getPhraseCount (then_seq PhraseT v duration s) = Suc (getPhraseCount s)
   \<and> getEndTime (then_seq PhraseT v duration s) = getEndTime s + duration
   \<and> (is_finite (getEndTime s) \<longrightarrow>
        getEndTime (last (phrases (then_seq PhraseT v duration s)))
          \<le> getStartTime (last (phrases (then_seq PhraseT v duration s)))
      \<and> getEndTime (then_seq PhraseT v duration s) \<le> getEndTime s)"
proof (intro conjI impI)
  assume neg: "duration < 0"
  show "phrases (then_seq PhraseT v duration s) =
       phrases s @ [make_phrase PhraseT (getEndTime s) (getEndTime s + duration) (getEndValue s) v]"
    by (rule phrases_then)
  then show "getPhraseCount (then_seq PhraseT v duration s) = Suc (getPhraseCount s)"
    by (simp add: getPhraseCount_def)
  show "getEndTime (then_seq PhraseT v duration s) = getEndTime s + duration"
    by (rule getEndTime_then)
  assume fin: "is_finite (getEndTime s)"
  have le: "getEndTime s + duration \<le> getEndTime s"
    using fin neg by (rule float_add_negative)
  then show "getEndTime (last (phrases (then_seq PhraseT v duration s)))
          \<le> getStartTime (last (phrases (then_seq PhraseT v duration s)))"
    by (simp add: phrases_then) (simp add: accessors)
  show "getEndTime (then_seq PhraseT v duration s) \<le> getEndTime s"
    using le by (simp only: getEndTime_then)
qed

theorem then_negative_duration_witness:
  "f32 (-1) < 0
   \<and> is_finite (getEndTime (Sequence_value (0::int)))
   \<and> getPhraseCount (then_seq (\<lambda>st en sv ev t. ev) (1::int) (f32 (-1)) (Sequence_value 0)) = 1
   \<and> getEndTime (then_seq (\<lambda>st en sv ev t. ev) (1::int) (f32 (-1)) (Sequence_value 0)) = f32 (-1)
   \<and> getEndTime (then_seq (\<lambda>st en sv ev t. ev) (1::int) (f32 (-1)) (Sequence_value 0))
       \<le> getEndTime (Sequence_value (0::int))"
  using then_negative_duration [of "f32 (-1)" "(\<lambda>st en sv ev t. ev)" "1::int" "Sequence_value 0"]
  by (simp add: Sequence_value_def then_seq_def accessors Let_def f32_small is_finite_def
      Rep_f32_small)

text \<open>
  The addition can round back to the current end time: at the end time
  \<open>33554432\<close> the duration \<open>-1\<close> appends a phrase of zero length and leaves the
  end time where it was.
\<close>

lemma then_negative_duration_absorbed:
  "getEndTime (then_seq (\<lambda>st en sv ev t. ev) (1::int) (f32 (-1))
      \<lparr>startTime = 0, endTime = f32 33554432, phrases = [], initial_value = 0\<rparr>)
   = f32 33554432"
  by (simp add: then_seq_def accessors float_eval)

subsection \<open>Construction from a list of phrases\<close>

text \<open>
  Against claim C7 as stated: on the empty list the constructor reports nothing;
  it evaluates \<^verbatim>\<open>phrases.front()\<close> on the empty vector.
\<close>

theorem Sequence_phrases_empty_counterexample:
  "Sequence_phrases ([] :: int phrase list) = Undefined_behaviour"
  by (simp add: Sequence_phrases_def)

text \<open>
  Claim C7, amended. The constructor has defined behaviour exactly on the
  non-empty lists (on the empty list it reads the front of an empty vector and
  reports no error). For every non-empty list it returns the sequence of these
  phrases whose start time is the start time of the first phrase, whose end time is
  the end time of the last phrase and whose initial value is the start value of
  the first phrase.
\<close>

theorem Sequence_phrases_nonempty:
  "(Sequence_phrases ps = Undefined_behaviour) = (ps = [])
   \<and> (ps \<noteq> [] \<longrightarrow>
        (\<exists>s. Sequence_phrases ps = Returns s
           \<and> phrases s = ps
           \<and> getStartTime s = getStartTime (hd ps)
           \<and> getEndTime s = getEndTime (last ps)
           \<and> initial_value s = startValue (hd ps)))"
  by (simp add: Sequence_phrases_def accessors)

theorem Sequence_phrases_nonempty_witness:
  "[make_phrase (\<lambda>st en sv ev t. ev) (f32 1) (f32 2) (3::int) 4] \<noteq> []
   \<and> (\<exists>s. Sequence_phrases [make_phrase (\<lambda>st en sv ev t. ev) (f32 1) (f32 2) (3::int) 4] = Returns s
         \<and> getStartTime s = f32 1 \<and> getEndTime s = f32 2 \<and> initial_value s = 3)"
  using Sequence_phrases_nonempty [of "[make_phrase (\<lambda>st en sv ev t. ev) (f32 1) (f32 2) (3::int) 4]"]
  by (auto simp: accessors)

subsection \<open>getValue outside the active range\<close>

text \<open>
  Against claim C2 as stated: after
  \<^verbatim>\<open>Sequence<int> s( 0 ); s.then<Hold>( 1, -1.0f );\<close> the end time is \<open>-1\<close> and the
  start time is 0. The query time \<open>-0.5\<close>, which is \<open>- 2 ^ 148\<close> units, is not
  before the end time, yet \<^verbatim>\<open>getValue\<close> takes its first branch and returns the
  initial value 0, while \<^verbatim>\<open>getEndValue()\<close> is 1.
\<close>

theorem getValue_end_clamp_counterexample:
  "getEndTime (then_seq (\<lambda>st en sv ev t. ev) (1::int) (f32 (-1)) (Sequence_value 0)) \<le> of_units (- (2 ^ 148))
   \<and> getValue (then_seq (\<lambda>st en sv ev t. ev) (1::int) (f32 (-1)) (Sequence_value 0)) (of_units (- (2 ^ 148))) = 0
   \<and> getEndValue (then_seq (\<lambda>st en sv ev t. ev) (1::int) (f32 (-1)) (Sequence_value 0)) = 1"
  by (simp add: Sequence_value_def then_seq_def getValue_def accessors float_eval)

text \<open>
  Claim C2, amended. For every sequence and every query time \<open>t\<close>: if \<open>t\<close> is before
  the start time then \<^verbatim>\<open>getValue( t )\<close> is the initial value; if \<open>t\<close> is not before
  the start time and not before the end time then \<^verbatim>\<open>getValue( t )\<close> is
  \<^verbatim>\<open>getEndValue()\<close>. The test against the start time comes first.
\<close>

theorem getValue_clamps:
  "(t < getStartTime s \<longrightarrow> getValue s t = initial_value s)
   \<and> (getStartTime s \<le> t \<and> getEndTime s \<le> t \<longrightarrow> getValue s t = getEndValue s)"
  by (simp add: getValue_def float_le_not_less)

theorem getValue_clamps_witness:
  "f32 (-1) < getStartTime (then_seq (\<lambda>st en sv ev t. ev) (10::int) (f32 1) (Sequence_value 0))
   \<and> getValue (then_seq (\<lambda>st en sv ev t. ev) (10::int) (f32 1) (Sequence_value 0)) (f32 (-1)) = 0
   \<and> getStartTime (then_seq (\<lambda>st en sv ev t. ev) (10::int) (f32 1) (Sequence_value 0)) \<le> f32 3
   \<and> getEndTime (then_seq (\<lambda>st en sv ev t. ev) (10::int) (f32 1) (Sequence_value 0)) \<le> f32 3
   \<and> getValue (then_seq (\<lambda>st en sv ev t. ev) (10::int) (f32 1) (Sequence_value 0)) (f32 3) = 10"
  using getValue_clamps [of "f32 (-1)" "then_seq (\<lambda>st en sv ev t. ev) (10::int) (f32 1) (Sequence_value 0)"]
    getValue_clamps [of "f32 3" "then_seq (\<lambda>st en sv ev t. ev) (10::int) (f32 1) (Sequence_value 0)"]
  by (simp add: Sequence_value_def then_seq_def accessors Let_def f32_small)

subsection \<open>Chains of then: the end time\<close>

lemma thens_append: "thens (xs @ ys) s = thens ys (thens xs s)"
  by (induction xs s rule: thens.induct) simp_all

lemma getEndTime_thens: "getEndTime (thens cs s) = foldl (+) (getEndTime s) (durations cs)"
  by (induction cs s rule: thens.induct) (simp_all add: durations_def getEndTime_then)

lemma getStartTime_thens: "getStartTime (thens cs s) = getStartTime s"
  by (induction cs s rule: thens.induct) (simp_all add: getStartTime_then)

lemma getEndTime_thens_grows:
  "list_all (\<lambda>d. 0 \<le> d) (durations cs) \<Longrightarrow> 0 \<le> getEndTime s \<Longrightarrow>
     getEndTime s \<le> getEndTime (thens cs s)"
proof (induction cs s rule: thens.induct)
  case (1 s)
  then show ?case
    using float_le_not_nan [of 0 "getEndTime s"] by (simp add: float_le_refl)
next
  case (2 PhraseT v duration cs s)
  have d: "0 \<le> duration" and rest: "list_all (\<lambda>d. 0 \<le> d) (durations cs)"
    using "2.prems"(1) by (simp_all add: durations_def)
  have step: "getEndTime s \<le> getEndTime (then_seq PhraseT v duration s)"
    using "2.prems"(2) d by (simp only: getEndTime_then float_add_nonneg)
  have "0 \<le> getEndTime (then_seq PhraseT v duration s)"
    using "2.prems"(2) step by (rule float_le_trans)
  then have "getEndTime (then_seq PhraseT v duration s)
      \<le> getEndTime (thens cs (then_seq PhraseT v duration s))"
    using "2.IH" rest by simp
  then have "getEndTime s \<le> getEndTime (thens cs (then_seq PhraseT v duration s))"
    using step float_le_trans by blast
  then show ?case by simp
qed

lemma durations_take: "list_all P (durations cs) \<Longrightarrow> list_all P (durations (take n cs))"
  by (simp add: durations_def list_all_iff) (meson in_set_takeD)

lemma durations_drop: "list_all P (durations cs) \<Longrightarrow> list_all P (durations (drop n cs))"
  by (simp add: durations_def list_all_iff) (meson in_set_dropD)

lemma getEndTime_thens_mono:
  assumes nonneg: "list_all (\<lambda>d. 0 \<le> d) (durations cs)" and nm: "n \<le> m"
  shows "getEndTime (thens (take n cs) (Sequence_value v0))
      \<le> getEndTime (thens (take m cs) (Sequence_value v0))"
proof -
  let ?s = "thens (take n cs) (Sequence_value v0)"
  have split: "take m cs = take n cs @ drop n (take m cs)"
    using nm by (metis append_take_drop_id min.absorb1 take_take)
  have zero: "0 \<le> getEndTime (Sequence_value v0)"
    by (simp add: Sequence_value_def getEndTime_def float_zero_le_zero)
  have "getEndTime (Sequence_value v0) \<le> getEndTime ?s"
    using durations_take [OF nonneg] zero by (rule getEndTime_thens_grows)
  with zero have "0 \<le> getEndTime ?s" by (rule float_le_trans)
  moreover have "list_all (\<lambda>d. 0 \<le> d) (durations (drop n (take m cs)))"
    using nonneg by (intro durations_drop durations_take)
  ultimately have "getEndTime ?s \<le> getEndTime (thens (drop n (take m cs)) ?s)"
    by (intro getEndTime_thens_grows)
  moreover have "thens (take m cs) (Sequence_value v0) = thens (drop n (take m cs)) ?s"
    using split thens_append [of "take n cs" "drop n (take m cs)" "Sequence_value v0"]
    by (simp only:)
  ultimately show ?thesis by (simp only:)
qed

text \<open>
  Against claim C4 as stated: after
  \<^verbatim>\<open>Sequence<int> s( 0 ); s.then<Hold>( 1, 16777216.0f ).then<Hold>( 2, 1.0f );\<close>
  the end time is 16777216, the result of the rounded float addition
  \<^verbatim>\<open>16777216.0f + 1.0f\<close>, while 0 plus the sum of the two durations is 16777217.
\<close>

theorem then_chain_sum_counterexample:
  "getEndTime (thens [((\<lambda>st en sv ev t. ev), 1::int, f32 16777216), ((\<lambda>st en sv ev t. ev), 2, f32 1)] (Sequence_value 0))
     = f32 16777216
   \<and> valof (f32 16777216) = 16777216
   \<and> 0 + sum_list (map valof (durations [((\<lambda>st en sv ev t. ev), 1::int, f32 16777216), ((\<lambda>st en sv ev t. ev), 2, f32 1)]))
     = 16777217"
  by (simp add: Sequence_value_def then_seq_def accessors durations_def float_eval)

text \<open>
  Claim C4, amended. For a sequence constructed from a single initial value and
  mutated by a chain of \<^verbatim>\<open>then\<close> calls, the end time after the chain is the
  float sum of the durations accumulated in call order from 0,
  \<open>((0 + d\<^sub>1) + d\<^sub>2) + \<dots>\<close>, every addition rounded to a float (so it can differ
  from the exact sum). \<^verbatim>\<open>then\<close> leaves the start time alone. When no duration
  is negative, the end time does not decrease along the chain: the end time after
  the first \<open>n\<close> calls is at most the end time after the first \<open>m\<close> calls, for
  \<open>n \<le> m\<close>.
\<close>

theorem then_chain_end_time:
  "getEndTime (thens cs (Sequence_value v0)) = foldl (+) 0 (durations cs)
   \<and> getStartTime (thens cs s) = getStartTime s
   \<and> (list_all (\<lambda>d. 0 \<le> d) (durations cs) \<longrightarrow>
        n \<le> m \<longrightarrow>
           getEndTime (thens (take n cs) (Sequence_value v0))
             \<le> getEndTime (thens (take m cs) (Sequence_value v0)))"
proof (intro conjI impI)
  show "getEndTime (thens cs (Sequence_value v0)) = foldl (+) 0 (durations cs)"
    by (simp add: getEndTime_thens) (simp add: Sequence_value_def getEndTime_def)
  show "getStartTime (thens cs s) = getStartTime s"
    by (rule getStartTime_thens)
next
  assume "list_all (\<lambda>d. 0 \<le> d) (durations cs)" and "n \<le> m"
  then show "getEndTime (thens (take n cs) (Sequence_value v0))
      \<le> getEndTime (thens (take m cs) (Sequence_value v0))"
    by (rule getEndTime_thens_mono)
qed

theorem then_chain_end_time_witness:
  "list_all (\<lambda>d. 0 \<le> d) (durations [((\<lambda>st en sv ev t. ev), 10::int, f32 1), ((\<lambda>st en sv ev t. ev), 10, f32 2)])
   \<and> getEndTime (thens [((\<lambda>st en sv ev t. ev), 10::int, f32 1), ((\<lambda>st en sv ev t. ev), 10, f32 2)] (Sequence_value 0)) = f32 3
   \<and> (1::nat) \<le> 2
   \<and> getEndTime (thens (take 1 [((\<lambda>st en sv ev t. ev), 10::int, f32 1), ((\<lambda>st en sv ev t. ev), 10, f32 2)]) (Sequence_value 0))
      \<le> getEndTime (thens (take 2 [((\<lambda>st en sv ev t. ev), 10::int, f32 1), ((\<lambda>st en sv ev t. ev), 10, f32 2)]) (Sequence_value 0))"
  using then_chain_end_time [of "[((\<lambda>st en sv ev t. ev), 10::int, f32 1), ((\<lambda>st en sv ev t. ev), 10, f32 2)]" 0
      "Sequence_value 0" 1 2]
  by (simp add: durations_def Sequence_value_def then_seq_def accessors Let_def f32_small)

subsection \<open>Chains of then and set: continuity\<close>

lemma appended_ok_then:
  assumes "appended_ok n s"
  shows "appended_ok n (then_seq PhraseT v d s)"
proof -
  let ?p = "make_phrase PhraseT (getEndTime s) (getEndTime s + d) (getEndValue s) v"
  have ps: "phrases (then_seq PhraseT v d s) = phrases s @ [?p]"
    by (rule phrases_then)
  have cached: "end_cached (then_seq PhraseT v d s)"
    by (simp add: end_cached_def ps getEndTime_then) (simp add: accessors)
  have "adjacent_ok (phrases s @ [?p]) i"
    if i: "n \<le> Suc i" "Suc i < length (phrases s @ [?p])" for i
  proof (cases "Suc i < length (phrases s)")
    case True
    then have "adjacent_ok (phrases s) i"
      using assms i by (simp add: appended_ok_def)
    then show ?thesis
      using True by (simp add: adjacent_ok_def nth_append)
  next
    case False
    then have len: "Suc i = length (phrases s)"
      using i by simp
    then have ne: "phrases s \<noteq> []" by auto
    have "phrases s ! i = last (phrases s)"
      using len ne by (metis diff_Suc_1 last_conv_nth)
    moreover have "getEndTime s = getEndTime (last (phrases s))"
      using assms ne by (simp add: appended_ok_def end_cached_def)
    moreover have "getEndValue s = endValue (last (phrases s))"
      using ne by (simp add: getEndValue_def)
    ultimately show ?thesis
      using len by (simp add: adjacent_ok_def nth_append) (simp add: accessors)
  qed
  then show ?thesis
    using cached by (simp add: appended_ok_def ps)
qed

lemma appended_ok_set:
  assumes "appended_ok n s"
  shows "appended_ok n (set_seq Hold v s)"
proof (cases "phrases s = []")
  case True
  then show ?thesis
    by (simp add: set_seq_def appended_ok_def end_cached_def)
next
  case False
  then show ?thesis
    using assms by (simp add: set_seq_def appended_ok_then)
qed

lemma appended_ok_call: "appended_ok n s \<Longrightarrow> appended_ok n (apply_call Hold c s)"
  by (cases c) (simp_all add: appended_ok_then appended_ok_set)

lemma appended_ok_calls: "appended_ok n s \<Longrightarrow> appended_ok n (apply_calls Hold cs s)"
  by (induction cs arbitrary: s) (simp_all add: appended_ok_call)

lemma appended_ok_start: "end_cached s \<Longrightarrow> appended_ok (length (phrases s)) s"
  by (auto simp: appended_ok_def)

lemma end_cached_Sequence_value: "end_cached (Sequence_value v)"
  by (simp add: end_cached_def Sequence_value_def)

lemma end_cached_Sequence_phrases: "Sequence_phrases ps = Returns s \<Longrightarrow> end_cached s"
  by (auto simp: end_cached_def Sequence_phrases_def accessors split: if_splits)

lemma contiguous_nth:
  "contiguous ps = (\<forall>i. Suc i < length ps \<longrightarrow> getEndTime (ps ! i) = getStartTime (ps ! Suc i))"
proof (induction ps rule: contiguous.induct)
  case (1 p q ps)
  show ?case
  proof
    assume c: "contiguous (p # q # ps)"
    show "\<forall>i. Suc i < length (p # q # ps) \<longrightarrow>
        getEndTime ((p # q # ps) ! i) = getStartTime ((p # q # ps) ! Suc i)"
    proof (intro allI impI)
      fix i assume "Suc i < length (p # q # ps)"
      then show "getEndTime ((p # q # ps) ! i) = getStartTime ((p # q # ps) ! Suc i)"
        using c 1 by (cases i) auto
    qed
  next
    assume a: "\<forall>i. Suc i < length (p # q # ps) \<longrightarrow>
        getEndTime ((p # q # ps) ! i) = getStartTime ((p # q # ps) ! Suc i)"
    have "getEndTime p = getStartTime q"
      using a [rule_format, of 0] by simp
    moreover have "\<forall>i. Suc i < length (q # ps) \<longrightarrow>
        getEndTime ((q # ps) ! i) = getStartTime ((q # ps) ! Suc i)"
    proof (intro allI impI)
      fix i assume "Suc i < length (q # ps)"
      then show "getEndTime ((q # ps) ! i) = getStartTime ((q # ps) ! Suc i)"
        using a [rule_format, of "Suc i"] by simp
    qed
    ultimately show "contiguous (p # q # ps)"
      using 1 by simp
  qed
qed simp_all

lemma value_continuous_nth:
  "value_continuous ps = (\<forall>i. Suc i < length ps \<longrightarrow> endValue (ps ! i) = startValue (ps ! Suc i))"
proof (induction ps rule: value_continuous.induct)
  case (1 p q ps)
  show ?case
  proof
    assume c: "value_continuous (p # q # ps)"
    show "\<forall>i. Suc i < length (p # q # ps) \<longrightarrow>
        endValue ((p # q # ps) ! i) = startValue ((p # q # ps) ! Suc i)"
    proof (intro allI impI)
      fix i assume "Suc i < length (p # q # ps)"
      then show "endValue ((p # q # ps) ! i) = startValue ((p # q # ps) ! Suc i)"
        using c 1 by (cases i) auto
    qed
  next
    assume a: "\<forall>i. Suc i < length (p # q # ps) \<longrightarrow>
        endValue ((p # q # ps) ! i) = startValue ((p # q # ps) ! Suc i)"
    have "endValue p = startValue q"
      using a [rule_format, of 0] by simp
    moreover have "\<forall>i. Suc i < length (q # ps) \<longrightarrow>
        endValue ((q # ps) ! i) = startValue ((q # ps) ! Suc i)"
    proof (intro allI impI)
      fix i assume "Suc i < length (q # ps)"
      then show "endValue ((q # ps) ! i) = startValue ((q # ps) ! Suc i)"
        using a [rule_format, of "Suc i"] by simp
    qed
    ultimately show "value_continuous (p # q # ps)"
      using 1 by simp
  qed
qed simp_all

text \<open>
  Claim C3. The phrase appended by \<^verbatim>\<open>then\<close> starts at the end time and at the end
  value the sequence has at that moment, and the phrases before it stay as they
  were; the caller supplies no start boundary. Hence after any chain of
  \<^verbatim>\<open>then\<close> and \<^verbatim>\<open>set\<close> calls on a sequence constructed from an initial value,
  every phrase ends at the time and at the value at which the next one starts.
  On a sequence constructed from a list of phrases the same holds for every
  adjacent pair whose second phrase was appended by the chain.
\<close>

theorem then_continuity:
  "getStartTime (last (phrases (then_seq PhraseT v d s))) = getEndTime s
   \<and> startValue (last (phrases (then_seq PhraseT v d s))) = getEndValue s
   \<and> butlast (phrases (then_seq PhraseT v d s)) = phrases s
   \<and> contiguous (phrases (apply_calls Hold cs (Sequence_value v0)))
   \<and> value_continuous (phrases (apply_calls Hold cs (Sequence_value v0)))
   \<and> (Sequence_phrases ps = Returns s0
        \<and> length ps \<le> Suc i \<and> Suc i < length (phrases (apply_calls Hold cs s0)) \<longrightarrow>
          getEndTime (phrases (apply_calls Hold cs s0) ! i)
            = getStartTime (phrases (apply_calls Hold cs s0) ! Suc i)
        \<and> endValue (phrases (apply_calls Hold cs s0) ! i)
            = startValue (phrases (apply_calls Hold cs s0) ! Suc i))"
proof (intro conjI impI)
  show "getStartTime (last (phrases (then_seq PhraseT v d s))) = getEndTime s"
    by (simp add: phrases_then) (simp add: accessors)
  show "startValue (last (phrases (then_seq PhraseT v d s))) = getEndValue s"
    by (simp add: phrases_then) (simp add: accessors)
  show "butlast (phrases (then_seq PhraseT v d s)) = phrases s"
    by (simp add: phrases_then)
  have "appended_ok 0 (apply_calls Hold cs (Sequence_value v0))"
    using appended_ok_calls [OF appended_ok_start [OF end_cached_Sequence_value [of v0]], of Hold cs]
    by (simp add: Sequence_value_def)
  then have adj: "\<forall>i. Suc i < length (phrases (apply_calls Hold cs (Sequence_value v0))) \<longrightarrow>
      adjacent_ok (phrases (apply_calls Hold cs (Sequence_value v0))) i"
    by (simp add: appended_ok_def)
  show "contiguous (phrases (apply_calls Hold cs (Sequence_value v0)))"
    using adj by (simp add: contiguous_nth adjacent_ok_def)
  show "value_continuous (phrases (apply_calls Hold cs (Sequence_value v0)))"
    using adj by (simp add: value_continuous_nth adjacent_ok_def)
next
  assume a: "Sequence_phrases ps = Returns s0
        \<and> length ps \<le> Suc i \<and> Suc i < length (phrases (apply_calls Hold cs s0))"
  then have "phrases s0 = ps"
    by (auto simp: Sequence_phrases_def split: if_splits)
  moreover have "appended_ok (length (phrases s0)) (apply_calls Hold cs s0)"
    using a appended_ok_calls [OF appended_ok_start [OF end_cached_Sequence_phrases]] by blast
  ultimately have "adjacent_ok (phrases (apply_calls Hold cs s0)) i"
    using a by (simp add: appended_ok_def)
  then show "getEndTime (phrases (apply_calls Hold cs s0) ! i)
            = getStartTime (phrases (apply_calls Hold cs s0) ! Suc i)"
    and "endValue (phrases (apply_calls Hold cs s0) ! i)
            = startValue (phrases (apply_calls Hold cs s0) ! Suc i)"
    by (simp_all add: adjacent_ok_def)
qed

theorem then_continuity_witness:
  "Sequence_phrases [make_phrase (\<lambda>st en sv ev t. ev) (f32 1) (f32 2) (3::int) 4]
     = Returns \<lparr>startTime = f32 1, endTime = f32 2,
                phrases = [make_phrase (\<lambda>st en sv ev t. ev) (f32 1) (f32 2) (3::int) 4], initial_value = 3\<rparr>
   \<and> length [make_phrase (\<lambda>st en sv ev t. ev) (f32 1) (f32 2) (3::int) 4] \<le> Suc 0
   \<and> Suc 0 < length (phrases (apply_calls (\<lambda>st en sv ev t. ev) [Then (\<lambda>st en sv ev t. ev) 5 (f32 1), Set 9]
        \<lparr>startTime = f32 1, endTime = f32 2,
         phrases = [make_phrase (\<lambda>st en sv ev t. ev) (f32 1) (f32 2) (3::int) 4], initial_value = 3\<rparr>))
   \<and> getEndTime (phrases (apply_calls (\<lambda>st en sv ev t. ev) [Then (\<lambda>st en sv ev t. ev) 5 (f32 1), Set 9]
        \<lparr>startTime = f32 1, endTime = f32 2,
         phrases = [make_phrase (\<lambda>st en sv ev t. ev) (f32 1) (f32 2) (3::int) 4], initial_value = 3\<rparr>) ! 0) = f32 2
   \<and> getStartTime (phrases (apply_calls (\<lambda>st en sv ev t. ev) [Then (\<lambda>st en sv ev t. ev) 5 (f32 1), Set 9]
        \<lparr>startTime = f32 1, endTime = f32 2,
         phrases = [make_phrase (\<lambda>st en sv ev t. ev) (f32 1) (f32 2) (3::int) 4], initial_value = 3\<rparr>) ! Suc 0) = f32 2
   \<and> startValue (phrases (apply_calls (\<lambda>st en sv ev t. ev) [Then (\<lambda>st en sv ev t. ev) 5 (f32 1), Set 9]
        \<lparr>startTime = f32 1, endTime = f32 2,
         phrases = [make_phrase (\<lambda>st en sv ev t. ev) (f32 1) (f32 2) (3::int) 4], initial_value = 3\<rparr>) ! Suc 0) = 4"
  using then_continuity [of "(\<lambda>st en sv ev t. ev)" 5 "f32 1"
      "\<lparr>startTime = f32 1, endTime = f32 2,
        phrases = [make_phrase (\<lambda>st en sv ev t. ev) (f32 1) (f32 2) (3::int) 4], initial_value = 3\<rparr>"
      "(\<lambda>st en sv ev t. ev)" "[Then (\<lambda>st en sv ev t. ev) 5 (f32 1), Set 9]" 0
      "[make_phrase (\<lambda>st en sv ev t. ev) (f32 1) (f32 2) (3::int) 4]"
      "\<lparr>startTime = f32 1, endTime = f32 2,
        phrases = [make_phrase (\<lambda>st en sv ev t. ev) (f32 1) (f32 2) (3::int) 4], initial_value = 3\<rparr>" 0]
  by (simp add: Sequence_phrases_def then_seq_def set_seq_def accessors Let_def f32_small)

subsection \<open>copy\<close>

lemma calls_at_valid:
  "this < length h \<Longrightarrow>
     calls_at Hold this cs h = Returns (this, h[this := apply_calls Hold cs (h ! this)])"
  by (induction cs arbitrary: h) (simp_all add: call_at_def)

text \<open>
  Claim C9. \<^verbatim>\<open>s2 = s1.copy()\<close> yields a new object with the contents of
  \<^verbatim>\<open>s1\<close>. Whatever chain of \<^verbatim>\<open>then\<close> and \<^verbatim>\<open>set\<close> calls is then made on
  \<^verbatim>\<open>s2\<close>, the calls are defined, they change \<^verbatim>\<open>s2\<close> as they would change
  \<^verbatim>\<open>s1\<close>, and the object \<^verbatim>\<open>s1\<close> keeps its state: its phrase count, its end value
  and its end time are what they were.
\<close>

theorem copy_independence:
  assumes "copy this h = Returns (that, h')"
  shows "that \<noteq> this
     \<and> h' ! this = h ! this
     \<and> h' ! that = h ! this
     \<and> (\<exists>h''. calls_at Hold that cs h' = Returns (that, h'')
           \<and> h'' ! that = apply_calls Hold cs (h ! this)
           \<and> h'' ! this = h ! this
           \<and> getPhraseCount (h'' ! this) = getPhraseCount (h ! this)
           \<and> getEndValue (h'' ! this) = getEndValue (h ! this)
           \<and> getEndTime (h'' ! this) = getEndTime (h ! this))"
proof -
  from assms have valid: "this < length h" and that: "that = length h"
    and h': "h' = h @ [h ! this]"
    by (auto simp: copy_def split: if_splits)
  have "calls_at Hold that cs h' = Returns (that, h'[that := apply_calls Hold cs (h' ! that)])"
    by (rule calls_at_valid) (simp add: that h')
  then show ?thesis
    using valid by (simp add: that h' nth_append)
qed

theorem copy_independence_witness:
  "copy 0 [Sequence_value (5::int)]
     = Returns (1, [Sequence_value (5::int), Sequence_value (5::int)])
   \<and> (\<exists>h''. calls_at (\<lambda>st en sv ev t. ev) 1 [Then (\<lambda>st en sv ev t. ev) 7 (f32 2), Set 9]
               [Sequence_value (5::int), Sequence_value (5::int)] = Returns (1, h'')
         \<and> getPhraseCount (h'' ! 1) = 2
         \<and> getPhraseCount (h'' ! 0) = 0
         \<and> getEndValue (h'' ! 0) = 5
         \<and> getEndTime (h'' ! 0) = 0)"
proof -
  have c: "copy 0 [Sequence_value (5::int)]
     = Returns (1, [Sequence_value (5::int), Sequence_value (5::int)])"
    by (simp add: copy_def)
  show ?thesis
    using c copy_independence [OF c, of "(\<lambda>st en sv ev t. ev)" "[Then (\<lambda>st en sv ev t. ev) 7 (f32 2), Set 9]"]
    by (auto simp: Sequence_value_def then_seq_def set_seq_def accessors Let_def)
qed

subsection \<open>The scan of getValue\<close>

lemma scan_Some:
  "scan i ps t = Some k \<Longrightarrow>
     i \<le> k \<and> k < length ps \<and> t < getEndTime (ps ! k)
     \<and> (\<forall>j. i \<le> j \<and> j < k \<longrightarrow> \<not> t < getEndTime (ps ! j))"
proof (induction i ps t rule: scan.induct)
  case (1 i ps atTime)
  show ?case
  proof (cases "i < length ps \<and> \<not> atTime < getEndTime (ps ! i)")
    case True
    then have "scan (Suc i) ps atTime = Some k"
      using "1.prems" by (subst (asm) scan.simps) simp
    then have ih: "Suc i \<le> k \<and> k < length ps \<and> atTime < getEndTime (ps ! k)
        \<and> (\<forall>j. Suc i \<le> j \<and> j < k \<longrightarrow> \<not> atTime < getEndTime (ps ! j))"
      using "1.IH" True by simp
    have "\<not> atTime < getEndTime (ps ! j)" if "i \<le> j \<and> j < k" for j
    proof (cases "j = i")
      case True
      then show ?thesis using \<open>i < length ps \<and> \<not> atTime < getEndTime (ps ! i)\<close> by simp
    next
      case False
      then show ?thesis using that ih by simp
    qed
    then show ?thesis using ih by simp
  next
    case False
    then show ?thesis
      using "1.prems" by (subst (asm) scan.simps) (auto split: if_splits)
  qed
qed

lemma scan_None:
  "scan i ps t = None \<Longrightarrow> i \<le> j \<Longrightarrow> j < length ps \<Longrightarrow> \<not> t < getEndTime (ps ! j)"
proof (induction i ps t rule: scan.induct)
  case (1 i ps atTime)
  have here: "i < length ps" using "1.prems" by simp
  have no: "\<not> atTime < getEndTime (ps ! i)" and rest: "scan (Suc i) ps atTime = None"
    using "1.prems"(1) here by (subst (asm) scan.simps, simp split: if_splits)+
  show ?case
  proof (cases "j = i")
    case True
    then show ?thesis using no by simp
  next
    case False
    then show ?thesis
      using "1.IH" [OF here no rest] "1.prems" by simp
  qed
qed

lemma scan_finds:
  assumes "k < length ps" and "t < getEndTime (ps ! k)"
  shows "\<exists>i. scan 0 ps t = Some i"
proof (cases "scan 0 ps t")
  case None
  then have "\<not> t < getEndTime (ps ! k)"
    using scan_None [of 0 ps t k] assms(1) by simp
  then show ?thesis using assms(2) by simp
next
  case (Some i)
  then show ?thesis by blast
qed

lemma in_range_guards:
  "getStartTime s \<le> t \<Longrightarrow> t < getEndTime s \<Longrightarrow>
     \<not> t < getStartTime s \<and> \<not> getEndTime s \<le> t"
  by (simp add: float_le_not_less float_less_not_le)

lemma guards_passed_last:
  assumes "times_consistent s" and "getStartTime s \<le> t" and "t < getEndTime s"
  shows "phrases s \<noteq> [] \<and> t < getEndTime (phrases s ! (length (phrases s) - 1))"
proof -
  have "\<not> t < getStartTime s"
    using assms(2) by (rule float_le_not_less)
  then have ne: "phrases s \<noteq> []"
    using assms by (auto simp: times_consistent_def split: if_splits)
  then have "getEndTime s = getEndTime (last (phrases s))"
    using assms(1) by (simp add: times_consistent_def)
  then show ?thesis
    using ne assms(3) by (simp add: last_conv_nth)
qed

lemma guards_passed_scan:
  assumes "times_consistent s" and "getStartTime s \<le> t" and "t < getEndTime s"
  shows "\<exists>i. scan 0 (phrases s) t = Some i"
proof -
  have "phrases s \<noteq> [] \<and> t < getEndTime (phrases s ! (length (phrases s) - 1))"
    using assms by (rule guards_passed_last)
  then show ?thesis
    using scan_finds [of "length (phrases s) - 1" "phrases s" t] by simp
qed

lemma getValue_by_branch:
  "getValue s t =
     (case getValue_branch s t of
        Initial_clamp \<Rightarrow> initial_value s
      | End_clamp \<Rightarrow> getEndValue s
      | Delegated i \<Rightarrow> valueAt (phrases s ! i) t
      | Fallback \<Rightarrow> getEndValue s)"
  by (simp add: getValue_def getValue_branch_def split: option.splits)

text \<open>
  For a query time with \<open>startTime \<le> atTime < endTime\<close> the scan finds a phrase
  and \<^verbatim>\<open>getValue\<close> returns from inside the loop.
\<close>

lemma fallback_unreachable_in_range:
  assumes "times_consistent s" and "getStartTime s \<le> t" and "t < getEndTime s"
  shows "getValue_branch s t \<noteq> Fallback
     \<and> (\<exists>i. i < length (phrases s) \<and> t < getEndTime (phrases s ! i)
           \<and> getValue_branch s t = Delegated i
           \<and> getValue s t = valueAt (phrases s ! i) t)"
proof -
  obtain i where i: "scan 0 (phrases s) t = Some i"
    using guards_passed_scan [OF assms] by blast
  have g: "\<not> t < getStartTime s \<and> \<not> getEndTime s \<le> t"
    using assms(2,3) by (rule in_range_guards)
  have "i < length (phrases s) \<and> t < getEndTime (phrases s ! i)"
    using scan_Some [of 0 "phrases s" t i] i by simp
  moreover have "getValue_branch s t = Delegated i"
    using i g by (simp add: getValue_branch_def)
  moreover have "getValue s t = valueAt (phrases s ! i) t"
    using i g by (simp add: getValue_def)
  ultimately show ?thesis by simp
qed

text \<open>
  Claim C8, evaluated at a query time that is NaN. The sequence is the one built
  by \<^verbatim>\<open>Sequence<int> s( 0 ); s.then<Hold>( 10, 1.0f ).then<Hold>( 20, 1.0f );\<close>: its
  phrases are contiguous, its cached times are consistent and its end time is not
  before the end of any phrase. Every comparison with NaN is false, so
  \<^verbatim>\<open>getValue( NaN )\<close> passes both guard clauses, the scan finds no phrase whose
  end time is after the query time, and the value comes from the fallback after
  the loop, the branch the claim and the comment in the code call unreachable.
\<close>

theorem fallback_reached_at_NaN:
  "contiguous (phrases (thens [((\<lambda>st en sv ev t. ev), 10::int, f32 1), ((\<lambda>st en sv ev t. ev), 20, f32 1)] (Sequence_value 0)))
   \<and> times_consistent (thens [((\<lambda>st en sv ev t. ev), 10::int, f32 1), ((\<lambda>st en sv ev t. ev), 20, f32 1)] (Sequence_value 0))
   \<and> ends_bounded (thens [((\<lambda>st en sv ev t. ev), 10::int, f32 1), ((\<lambda>st en sv ev t. ev), 20, f32 1)] (Sequence_value 0))
   \<and> getValue_branch (thens [((\<lambda>st en sv ev t. ev), 10::int, f32 1), ((\<lambda>st en sv ev t. ev), 20, f32 1)] (Sequence_value 0)) NaN
       = Fallback
   \<and> getValue (thens [((\<lambda>st en sv ev t. ev), 10::int, f32 1), ((\<lambda>st en sv ev t. ev), 20, f32 1)] (Sequence_value 0)) NaN = 20"
  by (simp add: evaluation accessors f32_small)

subsection \<open>The phrase that answers a query\<close>

lemma chronological_nth:
  "chronological ps \<Longrightarrow> i < length ps \<Longrightarrow> getStartTime (ps ! i) \<le> getEndTime (ps ! i)"
  by (simp add: chronological_def list_all_length)

lemma chronological_not_nan:
  assumes "chronological ps" and "i < length ps"
  shows "\<not> is_nan (getStartTime (ps ! i)) \<and> \<not> is_nan (getEndTime (ps ! i))"
  using chronological_nth [OF assms] by (rule float_le_not_nan)

lemma end_before_later_start:
  assumes "chronologically_contiguous ps"
  shows "i < j \<Longrightarrow> j < length ps \<Longrightarrow> getEndTime (ps ! i) \<le> getStartTime (ps ! j)"
proof (induction j)
  case 0
  then show ?case by simp
next
  case (Suc j)
  have chron: "chronological ps" and contig: "contiguous ps"
    using assms by (simp_all add: chronologically_contiguous_def)
  have step: "getEndTime (ps ! j) = getStartTime (ps ! Suc j)"
    using contig Suc.prems by (simp add: contiguous_nth)
  have "\<not> is_nan (getEndTime (ps ! j))"
    using chronological_not_nan [OF chron, of j] Suc.prems by simp
  then have meet: "getEndTime (ps ! j) \<le> getStartTime (ps ! Suc j)"
    using step float_le_refl [of "getEndTime (ps ! j)"] by simp
  show ?case
  proof (cases "i = j")
    case True
    then show ?thesis using meet by simp
  next
    case False
    then have "getEndTime (ps ! i) \<le> getStartTime (ps ! j)"
      using Suc by simp
    moreover have "getStartTime (ps ! j) \<le> getEndTime (ps ! j)"
      using chron Suc.prems by (simp add: chronological_nth)
    ultimately have "getEndTime (ps ! i) \<le> getEndTime (ps ! j)"
      by (rule float_le_trans)
    then show ?thesis using meet by (rule float_le_trans)
  qed
qed

lemma first_found_covers:
  assumes cc: "chronologically_contiguous (phrases s)" and tc: "times_consistent s"
    and lo: "\<not> t < getStartTime s"
    and found: "scan 0 (phrases s) t = Some i"
  shows "covers (phrases s ! i) t"
proof -
  have chron: "chronological (phrases s)" and contig: "contiguous (phrases s)"
    using cc by (simp_all add: chronologically_contiguous_def)
  have i: "i < length (phrases s)" "t < getEndTime (phrases s ! i)"
    and before: "\<forall>j. j < i \<longrightarrow> \<not> t < getEndTime (phrases s ! j)"
    using scan_Some [OF found] by simp_all
  have t: "\<not> is_nan t"
    using float_less_not_nan [OF i(2)] by simp
  have "getStartTime (phrases s ! i) \<le> t"
  proof (cases i)
    case 0
    have "phrases s \<noteq> []" using i by auto
    then have "getStartTime s = getStartTime (phrases s ! 0)"
      using tc by (simp add: times_consistent_def hd_conv_nth)
    moreover have "\<not> is_nan (getStartTime (phrases s ! 0))"
      using chronological_not_nan [OF chron, of 0] i 0 by simp
    ultimately show ?thesis
      using lo t 0 float_not_less_le [of t "getStartTime (phrases s ! 0)"] by simp
  next
    case (Suc j)
    then have "getEndTime (phrases s ! j) = getStartTime (phrases s ! i)"
      using contig i by (simp add: contiguous_nth)
    moreover have "\<not> t < getEndTime (phrases s ! j)"
      using before Suc by simp
    moreover have "\<not> is_nan (getEndTime (phrases s ! j))"
      using chronological_not_nan [OF chron, of j] i Suc by simp
    ultimately show ?thesis
      using t float_not_less_le [of t "getEndTime (phrases s ! j)"] by simp
  qed
  then show ?thesis using i by (simp add: covers_def)
qed

lemma covering_is_first_found:
  assumes cc: "chronologically_contiguous (phrases s)"
    and found: "scan 0 (phrases s) t = Some i"
    and j: "j < length (phrases s)" and cov: "covers (phrases s ! j) t"
  shows "j = i"
proof (rule ccontr)
  assume ne: "j \<noteq> i"
  have i: "i < length (phrases s)" "t < getEndTime (phrases s ! i)"
    and before: "\<forall>k. k < i \<longrightarrow> \<not> t < getEndTime (phrases s ! k)"
    using scan_Some [OF found] by simp_all
  show False
  proof (cases "j < i")
    case True
    then have "\<not> t < getEndTime (phrases s ! j)" using before by simp
    then show False using cov by (simp add: covers_def)
  next
    case False
    then have "i < j" using ne by simp
    then have "getEndTime (phrases s ! i) \<le> getStartTime (phrases s ! j)"
      using end_before_later_start [OF cc] j by simp
    with i(2) have "t < getStartTime (phrases s ! j)"
      by (rule float_less_le_trans)
    moreover have "\<not> t < getStartTime (phrases s ! j)"
      using cov by (simp add: covers_def float_le_not_less)
    ultimately show False by simp
  qed
qed

text \<open>
  Claim C1. For a sequence whose phrases are chronologically contiguous (no phrase
  ends before it starts, and every phrase ends where the next one starts), whose
  start time is the start time of the first phrase and whose end time is the end
  time of the last phrase, and a query time \<open>t\<close> with \<open>startTime \<le> t < endTime\<close>:
  \<^verbatim>\<open>getValue( t )\<close> is the value at \<open>t\<close> of the first phrase in order whose end
  time is after \<open>t\<close>; the half-open interval of that phrase contains \<open>t\<close>; and no
  other phrase has \<open>t\<close> in its interval.
\<close>

theorem getValue_in_range:
  assumes "chronologically_contiguous (phrases s)" and "times_consistent s"
    and "getStartTime s \<le> t" and "t < getEndTime s"
  shows "\<exists>i. i < length (phrases s)
        \<and> t < getEndTime (phrases s ! i)
        \<and> (\<forall>j. j < i \<longrightarrow> \<not> t < getEndTime (phrases s ! j))
        \<and> getValue s t = valueAt (phrases s ! i) t
        \<and> covers (phrases s ! i) t
        \<and> (\<forall>j. j < length (phrases s) \<and> covers (phrases s ! j) t \<longrightarrow> j = i)"
proof -
  obtain i where found: "scan 0 (phrases s) t = Some i"
    using guards_passed_scan [OF assms(2,3,4)] by blast
  have g: "\<not> t < getStartTime s \<and> \<not> getEndTime s \<le> t"
    using assms(3,4) by (rule in_range_guards)
  have "i < length (phrases s)" "t < getEndTime (phrases s ! i)"
    and "\<forall>j. j < i \<longrightarrow> \<not> t < getEndTime (phrases s ! j)"
    using scan_Some [OF found] by simp_all
  moreover have "getValue s t = valueAt (phrases s ! i) t"
    using found g by (simp add: getValue_def)
  moreover have "covers (phrases s ! i) t"
    using assms(1,2) _ found by (rule first_found_covers) (simp add: g)
  moreover have "\<forall>j. j < length (phrases s) \<and> covers (phrases s ! j) t \<longrightarrow> j = i"
    using covering_is_first_found [OF assms(1) found] by blast
  ultimately show ?thesis by blast
qed

theorem getValue_in_range_witness:
  "chronologically_contiguous (phrases (thens [((\<lambda>st en sv ev t. ev), 10::int, f32 2), ((\<lambda>st en sv ev t. ev), 20, f32 2)] (Sequence_value 0)))
   \<and> times_consistent (thens [((\<lambda>st en sv ev t. ev), 10::int, f32 2), ((\<lambda>st en sv ev t. ev), 20, f32 2)] (Sequence_value 0))
   \<and> getStartTime (thens [((\<lambda>st en sv ev t. ev), 10::int, f32 2), ((\<lambda>st en sv ev t. ev), 20, f32 2)] (Sequence_value 0)) \<le> f32 3
   \<and> f32 3 < getEndTime (thens [((\<lambda>st en sv ev t. ev), 10::int, f32 2), ((\<lambda>st en sv ev t. ev), 20, f32 2)] (Sequence_value 0))
   \<and> getValue (thens [((\<lambda>st en sv ev t. ev), 10::int, f32 2), ((\<lambda>st en sv ev t. ev), 20, f32 2)] (Sequence_value 0)) (f32 3) = 20
   \<and> covers (phrases (thens [((\<lambda>st en sv ev t. ev), 10::int, f32 2), ((\<lambda>st en sv ev t. ev), 20, f32 2)] (Sequence_value 0)) ! 1) (f32 3)
   \<and> \<not> covers (phrases (thens [((\<lambda>st en sv ev t. ev), 10::int, f32 2), ((\<lambda>st en sv ev t. ev), 20, f32 2)] (Sequence_value 0)) ! 0) (f32 3)"
  using getValue_in_range [of "thens [((\<lambda>st en sv ev t. ev), 10::int, f32 2), ((\<lambda>st en sv ev t. ev), 20, f32 2)] (Sequence_value 0)" "f32 3"]
  by (simp add: evaluation accessors f32_small)

text \<open>
  The uniqueness rests on the phrases running forward in time. After
  \<^verbatim>\<open>Sequence<int> s( 0 ); s.then<Hold>( 1, 5.0f ).then<Hold>( 2, -2.0f ).then<Hold>( 3, 7.0f );\<close>
  the phrases span 0 to 5, 5 to 3 and 3 to 10: they are contiguous, the cached
  times are consistent, and both the first and the third phrase cover the time 4.
\<close>

lemma contiguous_alone_not_unique:
  "contiguous (phrases (thens [((\<lambda>st en sv ev t. ev), 1::int, f32 5), ((\<lambda>st en sv ev t. ev), 2, f32 (-2)), ((\<lambda>st en sv ev t. ev), 3, f32 7)] (Sequence_value 0)))
   \<and> times_consistent (thens [((\<lambda>st en sv ev t. ev), 1::int, f32 5), ((\<lambda>st en sv ev t. ev), 2, f32 (-2)), ((\<lambda>st en sv ev t. ev), 3, f32 7)] (Sequence_value 0))
   \<and> covers (phrases (thens [((\<lambda>st en sv ev t. ev), 1::int, f32 5), ((\<lambda>st en sv ev t. ev), 2, f32 (-2)), ((\<lambda>st en sv ev t. ev), 3, f32 7)] (Sequence_value 0)) ! 0) (f32 4)
   \<and> covers (phrases (thens [((\<lambda>st en sv ev t. ev), 1::int, f32 5), ((\<lambda>st en sv ev t. ev), 2, f32 (-2)), ((\<lambda>st en sv ev t. ev), 3, f32 7)] (Sequence_value 0)) ! 2) (f32 4)"
  by (simp add: evaluation accessors f32_small)

subsection \<open>Delegation stays within the domain of the phrase\<close>

lemma start_before_phrase_start:
  assumes cc: "chronologically_contiguous (phrases s)" and tc: "times_consistent s"
    and k: "k < length (phrases s)"
  shows "getStartTime s \<le> getStartTime (phrases s ! k)"
proof -
  have chron: "chronological (phrases s)"
    using cc by (simp add: chronologically_contiguous_def)
  have ne: "phrases s \<noteq> []" using k by auto
  then have s0: "getStartTime s = getStartTime (phrases s ! 0)"
    using tc by (simp add: times_consistent_def hd_conv_nth)
  have first: "getStartTime (phrases s ! 0) \<le> getEndTime (phrases s ! 0)"
    using chron ne by (simp add: chronological_nth)
  show ?thesis
  proof (cases k)
    case 0
    have "\<not> is_nan (getStartTime (phrases s ! 0))"
      using float_le_not_nan [OF first] by simp
    then show ?thesis using s0 0 by (simp add: float_le_refl)
  next
    case (Suc j)
    then have "getEndTime (phrases s ! 0) \<le> getStartTime (phrases s ! k)"
      using end_before_later_start [OF cc, of 0 k] k by simp
    with first have "getStartTime (phrases s ! 0) \<le> getStartTime (phrases s ! k)"
      by (rule float_le_trans)
    then show ?thesis using s0 by simp
  qed
qed

lemma end_time_not_nan:
  assumes cc: "chronologically_contiguous (phrases s)" and tc: "times_consistent s"
    and ne: "phrases s \<noteq> []"
  shows "\<not> is_nan (getEndTime s)"
proof -
  have "getEndTime s = getEndTime (phrases s ! (length (phrases s) - 1))"
    using tc ne by (simp add: times_consistent_def last_conv_nth)
  moreover have "\<not> is_nan (getEndTime (phrases s ! (length (phrases s) - 1)))"
    using chronological_not_nan [of "phrases s" "length (phrases s) - 1"] cc ne
    by (simp add: chronologically_contiguous_def)
  ultimately show ?thesis by simp
qed

lemma delegated_found:
  "getValue_branch s t = Delegated i \<Longrightarrow>
     \<not> t < getStartTime s \<and> \<not> getEndTime s \<le> t \<and> scan 0 (phrases s) t = Some i"
  by (auto simp: getValue_branch_def split: if_splits option.splits)

text \<open>
  Against claim C10 as stated: after
  \<^verbatim>\<open>Sequence<int> s( 0 ); s.then<Hold>( 10, 1.0f ).set( 9 ).set( 8 ).then<Hold>( 20, 1.0f );\<close>
  the phrases span 0 to 1, 1 to 1, 1 to 1 and 1 to 2, and the invariants hold.
  The second phrase has zero duration at the instant 1. A query at that instant
  is answered by the fourth phrase: not by the phrase that follows the second
  one, and not by the end clamp.
\<close>

theorem following_phrase_counterexample:
  "chronologically_contiguous (phrases (apply_calls (\<lambda>st en sv ev t. ev)
       [Then (\<lambda>st en sv ev t. ev) (10::int) (f32 1), Set 9, Set 8, Then (\<lambda>st en sv ev t. ev) 20 (f32 1)] (Sequence_value 0)))
   \<and> times_consistent (apply_calls (\<lambda>st en sv ev t. ev)
       [Then (\<lambda>st en sv ev t. ev) (10::int) (f32 1), Set 9, Set 8, Then (\<lambda>st en sv ev t. ev) 20 (f32 1)] (Sequence_value 0))
   \<and> getStartTime (phrases (apply_calls (\<lambda>st en sv ev t. ev)
       [Then (\<lambda>st en sv ev t. ev) (10::int) (f32 1), Set 9, Set 8, Then (\<lambda>st en sv ev t. ev) 20 (f32 1)] (Sequence_value 0)) ! 1) = f32 1
   \<and> getEndTime (phrases (apply_calls (\<lambda>st en sv ev t. ev)
       [Then (\<lambda>st en sv ev t. ev) (10::int) (f32 1), Set 9, Set 8, Then (\<lambda>st en sv ev t. ev) 20 (f32 1)] (Sequence_value 0)) ! 1) = f32 1
   \<and> getValue_branch (apply_calls (\<lambda>st en sv ev t. ev)
       [Then (\<lambda>st en sv ev t. ev) (10::int) (f32 1), Set 9, Set 8, Then (\<lambda>st en sv ev t. ev) 20 (f32 1)] (Sequence_value 0)) (f32 1)
       = Delegated 3"
  by (simp add: evaluation accessors f32_small)

text \<open>
  Claim C10, amended. For a sequence satisfying the structural invariants
  (phrases chronologically contiguous, cached times consistent): whenever
  \<^verbatim>\<open>getValue( atTime )\<close> delegates to the phrase at position \<open>i\<close>, the query time
  lies in the half-open interval of that phrase, so the phrase has a positive
  duration. A phrase of zero duration, such as the one \<^verbatim>\<open>set\<close> appends, is
  therefore never the delegate; a query at its instant is answered by the end
  clamp or by a later phrase, namely the next phrase of positive duration: all
  phrases in between have zero duration at the same instant.
\<close>

theorem delegate_within_domain:
  assumes cc: "chronologically_contiguous (phrases s)" and tc: "times_consistent s"
  shows "(getValue_branch s t = Delegated i \<longrightarrow>
            i < length (phrases s)
          \<and> getValue s t = valueAt (phrases s ! i) t
          \<and> getStartTime (phrases s ! i) \<le> t \<and> t < getEndTime (phrases s ! i)
          \<and> getStartTime (phrases s ! i) \<noteq> getEndTime (phrases s ! i))
       \<and> (k < length (phrases s)
            \<and> getStartTime (phrases s ! k) = getEndTime (phrases s ! k) \<longrightarrow>
            getValue_branch s t \<noteq> Delegated k
          \<and> (getValue_branch s (getStartTime (phrases s ! k)) = End_clamp
              \<or> (\<exists>j. k < j \<and> j < length (phrases s)
                    \<and> getValue_branch s (getStartTime (phrases s ! k)) = Delegated j
                    \<and> (\<forall>m. k < m \<and> m < j \<longrightarrow>
                           getStartTime (phrases s ! m) = getStartTime (phrases s ! k)
                         \<and> getEndTime (phrases s ! m) = getStartTime (phrases s ! k)))))"
proof -
  have chron: "chronological (phrases s)"
    using cc by (simp add: chronologically_contiguous_def)
  have dom: "i < length (phrases s) \<and> getValue s t = valueAt (phrases s ! i) t
      \<and> getStartTime (phrases s ! i) \<le> t \<and> t < getEndTime (phrases s ! i)
      \<and> getStartTime (phrases s ! i) \<noteq> getEndTime (phrases s ! i)"
    if d: "getValue_branch s t = Delegated i" for i t
  proof -
    have g: "\<not> t < getStartTime s" "\<not> getEndTime s \<le> t"
      and found: "scan 0 (phrases s) t = Some i"
      using delegated_found [OF d] by simp_all
    have cov: "covers (phrases s ! i) t"
      using cc tc g(1) found by (rule first_found_covers)
    then have "\<not> t < getStartTime (phrases s ! i)"
      by (simp add: covers_def float_le_not_less)
    then have "getStartTime (phrases s ! i) \<noteq> getEndTime (phrases s ! i)"
      using cov by (auto simp: covers_def)
    moreover have "i < length (phrases s)"
      using scan_Some [OF found] by simp
    moreover have "getValue s t = valueAt (phrases s ! i) t"
      using found g by (simp add: getValue_def)
    ultimately show ?thesis using cov by (simp add: covers_def)
  qed
  have zero: "getValue_branch s t \<noteq> Delegated k
      \<and> (getValue_branch s (getStartTime (phrases s ! k)) = End_clamp
          \<or> (\<exists>j. k < j \<and> j < length (phrases s)
                \<and> getValue_branch s (getStartTime (phrases s ! k)) = Delegated j
                \<and> (\<forall>m. k < m \<and> m < j \<longrightarrow>
                       getStartTime (phrases s ! m) = getStartTime (phrases s ! k)
                     \<and> getEndTime (phrases s ! m) = getStartTime (phrases s ! k))))"
    if k: "k < length (phrases s)"
      and z: "getStartTime (phrases s ! k) = getEndTime (phrases s ! k)"
  proof
    show "getValue_branch s t \<noteq> Delegated k"
      using dom [of t k] z by auto
    let ?x = "getStartTime (phrases s ! k)"
    have ne: "phrases s \<noteq> []" using k by auto
    have x: "\<not> is_nan ?x"
      using chronological_not_nan [OF chron k] by simp
    have xx: "?x \<le> ?x" using x by (rule float_le_refl)
    have lo: "getStartTime s \<le> ?x"
      using cc tc k by (rule start_before_phrase_start)
    then have g1: "\<not> ?x < getStartTime s" by (rule float_le_not_less)
    have upto: "getEndTime (phrases s ! j) \<le> ?x" if "j \<le> k" for j
    proof (cases "j = k")
      case True
      then show ?thesis using z xx by simp
    next
      case False
      then show ?thesis
        using end_before_later_start [OF cc, of j k] that k by simp
    qed
    show "getValue_branch s ?x = End_clamp
          \<or> (\<exists>j. k < j \<and> j < length (phrases s) \<and> getValue_branch s ?x = Delegated j
                \<and> (\<forall>m. k < m \<and> m < j \<longrightarrow>
                       getStartTime (phrases s ! m) = ?x \<and> getEndTime (phrases s ! m) = ?x))"
    proof (cases "?x < getEndTime s")
      case False
      have "\<not> is_nan (getEndTime s)"
        using cc tc ne by (rule end_time_not_nan)
      then have "getEndTime s \<le> ?x"
        using x False float_not_less_le [of ?x "getEndTime s"] by simp
      then show ?thesis using g1 by (simp add: getValue_branch_def)
    next
      case True
      then have g2: "\<not> getEndTime s \<le> ?x" by (rule float_less_not_le)
      obtain j where found: "scan 0 (phrases s) ?x = Some j"
        using guards_passed_scan [OF tc lo True] by blast
      have j: "j < length (phrases s)" "?x < getEndTime (phrases s ! j)"
        and before: "\<forall>m. m < j \<longrightarrow> \<not> ?x < getEndTime (phrases s ! m)"
        using scan_Some [OF found] by simp_all
      have kj: "k < j"
      proof (rule ccontr)
        assume "\<not> k < j"
        then have "getEndTime (phrases s ! j) \<le> ?x"
          using upto [of j] by simp
        then show False using j(2) float_le_not_less by blast
      qed
      have between: "getStartTime (phrases s ! m) = ?x \<and> getEndTime (phrases s ! m) = ?x"
        if m: "k < m \<and> m < j" for m
      proof -
        have mlen: "m < length (phrases s)" using m j by simp
        have "\<not> is_nan (getEndTime (phrases s ! m))"
          using chronological_not_nan [OF chron mlen] by simp
        then have e: "getEndTime (phrases s ! m) \<le> ?x"
          using before m x float_not_less_le [of ?x "getEndTime (phrases s ! m)"] by simp
        have "getEndTime (phrases s ! k) \<le> getStartTime (phrases s ! m)"
          using end_before_later_start [OF cc, of k m] m mlen by simp
        then have b: "?x \<le> getStartTime (phrases s ! m)"
          using z by simp
        have c: "getStartTime (phrases s ! m) \<le> getEndTime (phrases s ! m)"
          using chron mlen by (rule chronological_nth)
        have "getStartTime (phrases s ! m) \<le> ?x"
          using c e by (rule float_le_trans)
        then have st: "getStartTime (phrases s ! m) = ?x"
          using b by (rule float_le_antisym)
        have "?x \<le> getEndTime (phrases s ! m)"
          using b c by (rule float_le_trans)
        with e have "getEndTime (phrases s ! m) = ?x"
          by (rule float_le_antisym)
        with st show ?thesis by simp
      qed
      have "getValue_branch s ?x = Delegated j"
        using found g1 g2 by (simp add: getValue_branch_def)
      then show ?thesis using kj j between by blast
    qed
  qed
  show ?thesis using dom [of t i] zero by auto
qed

theorem delegate_within_domain_witness:
  "chronologically_contiguous
     (phrases (apply_calls (\<lambda>st en sv ev t. ev) [Then (\<lambda>st en sv ev t. ev) (10::int) (f32 1), Set 9, Then (\<lambda>st en sv ev t. ev) 20 (f32 1)] (Sequence_value 0)))
   \<and> times_consistent (apply_calls (\<lambda>st en sv ev t. ev) [Then (\<lambda>st en sv ev t. ev) (10::int) (f32 1), Set 9, Then (\<lambda>st en sv ev t. ev) 20 (f32 1)] (Sequence_value 0))
   \<and> getValue_branch (apply_calls (\<lambda>st en sv ev t. ev) [Then (\<lambda>st en sv ev t. ev) (10::int) (f32 1), Set 9, Then (\<lambda>st en sv ev t. ev) 20 (f32 1)] (Sequence_value 0)) (f32 1)
       = Delegated 2
   \<and> (1::nat) < length (phrases (apply_calls (\<lambda>st en sv ev t. ev) [Then (\<lambda>st en sv ev t. ev) (10::int) (f32 1), Set 9, Then (\<lambda>st en sv ev t. ev) 20 (f32 1)] (Sequence_value 0)))
   \<and> getStartTime (phrases (apply_calls (\<lambda>st en sv ev t. ev) [Then (\<lambda>st en sv ev t. ev) (10::int) (f32 1), Set 9, Then (\<lambda>st en sv ev t. ev) 20 (f32 1)] (Sequence_value 0)) ! 1) = f32 1
   \<and> getEndTime (phrases (apply_calls (\<lambda>st en sv ev t. ev) [Then (\<lambda>st en sv ev t. ev) (10::int) (f32 1), Set 9, Then (\<lambda>st en sv ev t. ev) 20 (f32 1)] (Sequence_value 0)) ! 1) = f32 1
   \<and> getValue (apply_calls (\<lambda>st en sv ev t. ev) [Then (\<lambda>st en sv ev t. ev) (10::int) (f32 1), Set 9, Then (\<lambda>st en sv ev t. ev) 20 (f32 1)] (Sequence_value 0)) (f32 1) = 20"
  using delegate_within_domain
    [of "apply_calls (\<lambda>st en sv ev t. ev) [Then (\<lambda>st en sv ev t. ev) (10::int) (f32 1), Set 9, Then (\<lambda>st en sv ev t. ev) 20 (f32 1)] (Sequence_value 0)"
      "f32 1" 2 1]
  by (simp add: evaluation accessors f32_small)

end
